theory Spec2Isabelle
  imports Main "HOL-Library.Word"
begin

section \<open>Byte strings, errors and engine statuses\<close>

text \<open>
  Keys and values are opaque byte strings (Python \<open>bytes\<close>).  Python exceptions are
  values of \<open>error\<close>; \<open>OtherException\<close> stands for any exception raised by the caller's
  own code (inside a \<open>with\<close> block), tagged by a number.  Two values stand for what C
  leaves undefined: \<open>InvalidCursorAccess\<close> marks a call of the engine cursor's \<open>Next\<close>,
  \<open>key\<close> or \<open>value\<close> while the cursor is not \<open>Valid()\<close>, which the engine's interface
  forbids, and \<open>InvalidMemoryAccess\<close> a read of memory in front of a key's bytes.
\<close>

type_synonym byte = "8 word"
type_synonym bytes = "byte list"

datatype error =
    RuntimeError
  | TypeError
  | AssertionError
  | SystemError
  | IOError
  | CorruptionError
  | Error
  | InvalidCursorAccess
  | InvalidMemoryAccess
  | OtherException nat

datatype Status = StatusOK | StatusNotFound | StatusIOError | StatusCorruption | StatusOther

text \<open>\<open>raise_for_status\<close>: \<open>None\<close> is the normal return, \<open>Some e\<close> the exception raised.\<close>

definition raise_for_status :: "Status \<Rightarrow> error option" where
  "raise_for_status st =
     (if st = StatusOK then None
      else if st = StatusIOError then Some IOError
      else if st = StatusCorruption then Some CorruptionError
      else Some Error)"

section \<open>\<open>bytes_increment\<close>\<close>

text \<open>
  The index \<open>i\<close> of \<open>bytes_increment\<close> is a C \<open>int\<close>, 32 bits wide and signed:
  \<open>cdef int i = len(s) - 1\<close> keeps the low 32 bits of the length minus one, and the
  loop reads them as a two's complement number (\<open>sint\<close>).  The loop walks the index
  down while it is not negative; the index it starts from is never past the end of the
  string (lemma \<open>bytes_increment_index_inside\<close>).  The byte that is incremented is
  below \<open>0xff\<close>, so the addition on \<open>8 word\<close> does not wrap.  The bound \<open>i + 1\<close> of the
  slice that is returned is computed in a C \<open>long\<close> of 64 bits, where it does not
  overflow.
\<close>

function bytes_increment_loop :: "bytes \<Rightarrow> 32 word \<Rightarrow> bytes option" where
  "bytes_increment_loop b i =
     (if sint i \<ge> 0 then
        (if b ! nat (sint i) = 0xff then bytes_increment_loop b (i - 1)
         else Some (take (nat (sint i + 1)) (b[nat (sint i) := b ! nat (sint i) + 1])))
      else None)"
  by pat_completeness auto
termination
proof (relation "measure (\<lambda>(b, i). nat (sint i + 1))")
  show "wf (measure (\<lambda>(b, i :: 32 word). nat (sint i + 1)))"
    by simp
next
  fix b :: bytes and i :: "32 word"
  assume nonneg: "0 \<le> sint i"
  have "sint i < 2 ^ 31"
    using sint_lt [of i] by simp
  with nonneg have "sint (i - 1) = sint i - 1"
    by (simp add: sint_word_ariths signed_take_bit_int_eq_self)
  with nonneg show "((b, i - 1), (b, i)) \<in> measure (\<lambda>(b, i). nat (sint i + 1))"
    by simp
qed

definition bytes_increment :: "bytes \<Rightarrow> bytes option" where
  "bytes_increment s = bytes_increment_loop s (word_of_int (int (length s) - 1))"


section \<open>The storage engine\<close>

text \<open>
  The engine (LevelDB) is an external library.  The model keeps what its interface
  promises: a store is a list of (key, value) entries in strictly ascending order of the
  comparator it was opened with, and a native cursor walks such a list.  A comparator
  returns a negative number, zero or a positive number; the built-in
  \<open>BytewiseComparator\<close> compares byte by byte and then by length, a callback comparator
  is any function the caller supplied (with its name).
\<close>

type_synonym store_entries = "(bytes \<times> bytes) list"

fun bytewise_compare :: "bytes \<Rightarrow> bytes \<Rightarrow> int" where
  "bytewise_compare [] [] = 0"
| "bytewise_compare [] (y # ys) = - 1"
| "bytewise_compare (x # xs) [] = 1"
| "bytewise_compare (x # xs) (y # ys) =
     (if x < y then - 1 else if y < x then 1 else bytewise_compare xs ys)"

datatype Comparator =
    BytewiseComparator
  | PlyvelCallbackComparator bytes "bytes \<Rightarrow> bytes \<Rightarrow> int"

fun Compare :: "Comparator \<Rightarrow> bytes \<Rightarrow> bytes \<Rightarrow> int" where
  "Compare BytewiseComparator a b = bytewise_compare a b"
| "Compare (PlyvelCallbackComparator name f) a b = f a b"

text \<open>
  \<open>leveldb_DB\<close> is the engine's connection: the entries of the store, the comparator it
  was opened with and the status its operations report (\<open>StatusOK\<close> unless the engine
  fails).  \<open>leveldb_Snapshot\<close> is a pinned view of the entries.
\<close>

record leveldb_DB =
  contents :: store_entries
  engine_comparator :: Comparator
  engine_status :: Status

record leveldb_Snapshot =
  pinned :: store_entries

text \<open>
  The native cursor: the entries it reads, their order, its position (\<open>None\<close> when the
  cursor is not \<open>Valid()\<close>) and its status.  \<open>Seek\<close> moves to the first entry whose key
  is at or after the target; \<open>Next\<close> and \<open>Prev\<close> leave the list at its ends.
\<close>

record leveldb_Iterator =
  entries :: store_entries
  ordering :: "bytes \<Rightarrow> bytes \<Rightarrow> int"
  position :: "nat option"
  cursor_status :: Status

definition NewIterator :: "leveldb_DB \<Rightarrow> leveldb_Snapshot option \<Rightarrow> leveldb_Iterator" where
  "NewIterator e snap =
     \<lparr> entries = (case snap of None \<Rightarrow> contents e | Some s \<Rightarrow> pinned s),
       ordering = Compare (engine_comparator e),
       position = None,
       cursor_status = engine_status e \<rparr>"

definition Valid :: "leveldb_Iterator \<Rightarrow> bool" where
  "Valid c = (case position c of None \<Rightarrow> False | Some i \<Rightarrow> i < length (entries c))"

definition cursor_entry :: "leveldb_Iterator \<Rightarrow> (bytes \<times> bytes) option" where
  "cursor_entry c =
     (case position c of
        None \<Rightarrow> None
      | Some i \<Rightarrow> if i < length (entries c) then Some (entries c ! i) else None)"

definition cursor_key :: "leveldb_Iterator \<Rightarrow> bytes option" where
  "cursor_key c = map_option fst (cursor_entry c)"

definition SeekToFirst :: "leveldb_Iterator \<Rightarrow> leveldb_Iterator" where
  "SeekToFirst c = c\<lparr>position := (if entries c = [] then None else Some 0)\<rparr>"

definition SeekToLast :: "leveldb_Iterator \<Rightarrow> leveldb_Iterator" where
  "SeekToLast c =
     c\<lparr>position := (if entries c = [] then None else Some (length (entries c) - 1))\<rparr>"

definition Seek :: "leveldb_Iterator \<Rightarrow> bytes \<Rightarrow> leveldb_Iterator" where
  "Seek c target =
     (let n = length (takeWhile (\<lambda>e. ordering c (fst e) target < 0) (entries c))
      in c\<lparr>position := (if n < length (entries c) then Some n else None)\<rparr>)"

definition Next :: "leveldb_Iterator \<Rightarrow> leveldb_Iterator" where
  "Next c =
     c\<lparr>position :=
        (case position c of
           None \<Rightarrow> None
         | Some i \<Rightarrow> if Suc i < length (entries c) then Some (Suc i) else None)\<rparr>"

definition Prev :: "leveldb_Iterator \<Rightarrow> leveldb_Iterator" where
  "Prev c =
     c\<lparr>position :=
        (case position c of
           None \<Rightarrow> None
         | Some i \<Rightarrow> if i = 0 then None else Some (i - 1))\<rparr>"

text \<open>
  A write batch is a list of staged operations; the engine applies it as a whole, in
  order, or not at all when it reports a failure.
\<close>

datatype batch_op = Put bytes bytes | Delete bytes

fun engine_put :: "(bytes \<Rightarrow> bytes \<Rightarrow> int) \<Rightarrow> bytes \<Rightarrow> bytes \<Rightarrow> store_entries \<Rightarrow> store_entries" where
  "engine_put cmp k v [] = [(k, v)]"
| "engine_put cmp k v ((k', v') # es) =
     (if cmp k k' < 0 then (k, v) # (k', v') # es
      else if cmp k k' = 0 then (k, v) # es
      else (k', v') # engine_put cmp k v es)"

definition engine_delete :: "(bytes \<Rightarrow> bytes \<Rightarrow> int) \<Rightarrow> bytes \<Rightarrow> store_entries \<Rightarrow> store_entries" where
  "engine_delete cmp k es = filter (\<lambda>e. cmp (fst e) k \<noteq> 0) es"

fun apply_op :: "(bytes \<Rightarrow> bytes \<Rightarrow> int) \<Rightarrow> store_entries \<Rightarrow> batch_op \<Rightarrow> store_entries" where
  "apply_op cmp es (Put k v) = engine_put cmp k v es"
| "apply_op cmp es (Delete k) = engine_delete cmp k es"

definition apply_batch :: "leveldb_DB \<Rightarrow> batch_op list \<Rightarrow> leveldb_DB" where
  "apply_batch e ops =
     e\<lparr>contents := foldl (apply_op (Compare (engine_comparator e))) (contents e) ops\<rparr>"

definition leveldb_Write :: "leveldb_DB \<Rightarrow> batch_op list \<Rightarrow> Status \<times> leveldb_DB" where
  "leveldb_Write e ops =
     (if engine_status e = StatusOK then (StatusOK, apply_batch e ops)
      else (engine_status e, e))"

section \<open>The iterator: data\<close>

datatype IteratorState =
    BEFORE_START
  | AFTER_STOP
  | IN_BETWEEN
  | IN_BETWEEN_ALREADY_POSITIONED

datatype IteratorDirection = FORWARD | REVERSE

text \<open>
  The fields of the class \<open>Iterator\<close>.  \<open>iter\<close> is the pointer \<open>_iter\<close>, \<open>None\<close> when it is
  \<open>NULL\<close> (the iterator is closed).  \<open>comparator\<close> is the \<open>Compare\<close> method of the
  comparator object the pointer \<open>self.comparator\<close> refers to.  \<open>start_slice\<close> and
  \<open>stop_slice\<close> are views of \<open>start\<close> and \<open>stop\<close> and are not separate fields here.  The
  back reference \<open>db\<close> is read by \<open>__init__\<close> only.  \<open>skip_key_bytes\<close> is a C \<open>int\<close>,
  32 bits wide and signed.
\<close>

record Iterator =
  iter :: "leveldb_Iterator option"
  direction :: IteratorDirection
  state :: IteratorState
  comparator :: "bytes \<Rightarrow> bytes \<Rightarrow> int"
  start :: "bytes option"
  stop :: "bytes option"
  include_start :: bool
  include_stop :: bool
  include_key :: bool
  include_value :: bool
  skip_key_bytes :: "32 word"

section \<open>The store handle \<open>DB\<close>\<close>

text \<open>
  \<open>Options\<close> keeps the three engine-side resources that \<open>DB.close\<close> releases:
  \<open>block_cache\<close> and \<open>filter_policy\<close> are \<open>None\<close> when the pointer is \<open>NULL\<close> and otherwise
  hold the size the resource was created with; \<open>opt_comparator\<close> is the pointer
  \<open>options.comparator\<close>.

  \<open>DB\<close>: \<open>db_ptr\<close> is the pointer \<open>_db\<close> (\<open>None\<close> when \<open>NULL\<close>); \<open>iterators\<close> is the weak
  registry, \<open>None\<close> when the constructor never completed, else the identities (\<open>id()\<close>)
  of the registered iterators that are still alive.  Iterator objects are shared
  between the registry and their users, so they live in a heap indexed by identity.
\<close>

record Options =
  block_cache :: "nat option"
  filter_policy :: "nat option"
  opt_comparator :: "Comparator option"

record DB =
  db_ptr :: "leveldb_DB option"
  options :: Options
  iterators :: "nat list option"

type_synonym heap = "nat \<Rightarrow> Iterator option"

definition DB_register_iterator :: "DB \<Rightarrow> nat \<Rightarrow> DB" where
  "DB_register_iterator db_obj ident =
     db_obj\<lparr>iterators :=
       map_option (\<lambda>ids. if ident \<in> set ids then ids else ids @ [ident]) (iterators db_obj)\<rparr>"

text \<open>
  \<open>Iterator.close\<close> deletes the native cursor unless it is already gone.  \<open>DB.close\<close>
  returns the handle and the heap after the call together with the list of releases
  it performed, in the order it performed them.  Its five \<open>if\<close> blocks are five
  functions, applied in the order of the source: the loop over the weak registry
  (an identity whose object is gone from the heap is skipped), the deletion of the
  engine connection, and the releases of the block cache, the filter policy and the
  comparator.
\<close>

definition Iterator_close :: "Iterator \<Rightarrow> Iterator" where
  "Iterator_close self = (case iter self of None \<Rightarrow> self | Some c \<Rightarrow> self\<lparr>iter := None\<rparr>)"

datatype close_event =
    Iterator_closed nat
  | Engine_closed
  | Block_cache_released
  | Filter_policy_released
  | Comparator_released

fun close_iterators :: "nat list \<Rightarrow> heap \<Rightarrow> heap \<times> close_event list" where
  "close_iterators [] h = (h, [])"
| "close_iterators (ident # ids) h =
     (case h ident of
        None \<Rightarrow> close_iterators ids h
      | Some it \<Rightarrow>
          (let (h', evs) = close_iterators ids (h(ident \<mapsto> Iterator_close it))
           in (h', Iterator_closed ident # evs)))"

definition close_registered :: "DB \<Rightarrow> heap \<Rightarrow> DB \<times> heap \<times> close_event list" where
  "close_registered self h =
     (case iterators self of
        None \<Rightarrow> (self, h, [])
      | Some ids \<Rightarrow>
          (let (h', evs) = close_iterators ids h
           in (self\<lparr>iterators := Some []\<rparr>, h', evs)))"

definition close_engine :: "DB \<Rightarrow> DB \<times> close_event list" where
  "close_engine self =
     (case db_ptr self of
        None \<Rightarrow> (self, [])
      | Some e \<Rightarrow> (self\<lparr>db_ptr := None\<rparr>, [Engine_closed]))"

definition release_block_cache :: "DB \<Rightarrow> DB \<times> close_event list" where
  "release_block_cache self =
     (case block_cache (options self) of
        None \<Rightarrow> (self, [])
      | Some n \<Rightarrow>
          (self\<lparr>options := (options self)\<lparr>block_cache := None\<rparr>\<rparr>, [Block_cache_released]))"

definition release_filter_policy :: "DB \<Rightarrow> DB \<times> close_event list" where
  "release_filter_policy self =
     (case filter_policy (options self) of
        None \<Rightarrow> (self, [])
      | Some n \<Rightarrow>
          (self\<lparr>options := (options self)\<lparr>filter_policy := None\<rparr>\<rparr>, [Filter_policy_released]))"

definition release_comparator :: "DB \<Rightarrow> DB \<times> close_event list" where
  "release_comparator self =
     (case opt_comparator (options self) of
        None \<Rightarrow> (self, [])
      | Some BytewiseComparator \<Rightarrow> (self, [])
      | Some (PlyvelCallbackComparator name f) \<Rightarrow>
          (self\<lparr>options := (options self)\<lparr>opt_comparator := None\<rparr>\<rparr>, [Comparator_released]))"

definition DB_close :: "DB \<Rightarrow> heap \<Rightarrow> DB \<times> heap \<times> close_event list" where
  "DB_close self h =
     (let (self1, h1, ev1) = close_registered self h;
          (self2, ev2) = close_engine self1;
          (self3, ev3) = release_block_cache self2;
          (self4, ev4) = release_filter_policy self3;
          (self5, ev5) = release_comparator self4
      in (self5, h1, ev1 @ ev2 @ ev3 @ ev4 @ ev5))"

section \<open>The iterator: construction\<close>

text \<open>
  \<open>seek_to_start\<close> and \<open>seek_to_stop\<close> only set the logical state; they raise on a
  closed iterator.
\<close>

definition seek_to_start :: "Iterator \<Rightarrow> error + Iterator" where
  "seek_to_start self =
     (case iter self of
        None \<Rightarrow> Inl RuntimeError
      | Some c \<Rightarrow> Inr (self\<lparr>state := BEFORE_START\<rparr>))"

definition seek_to_stop :: "Iterator \<Rightarrow> error + Iterator" where
  "seek_to_stop self =
     (case iter self of
        None \<Rightarrow> Inl RuntimeError
      | Some c \<Rightarrow> Inr (self\<lparr>state := AFTER_STOP\<rparr>))"

text \<open>
  \<open>Iterator.__init__\<close>.  The arguments are those of the source, in its order, but for
  \<open>verify_checksums\<close> and \<open>fill_cache\<close>, which tune the engine's reads and change nothing
  in this model of the engine; \<open>self_id\<close> is the identity (\<open>id()\<close>) of the object under
  construction.  The result is the exception raised, or the new iterator with the store
  handle that has registered it.  The first \<open>let\<close> is the block that adapts the
  arguments to the key prefix of a \<open>PrefixedDB\<close>; the second is the block for the
  \<open>prefix\<close> argument.  The source registers the iterator before the status check; when
  that check raises, the object under construction is dropped and its weak registry
  entry with it, so the handle is returned on success only.  The assignment
  \<open>self.skip_key_bytes = len(key_prefix)\<close> keeps the low 32 bits of the length.  A
  \<open>NULL\<close> comparator pointer is not dereferenced by the source at this point; the
  handle of an open store never holds one, and the model takes the comparator the
  engine was opened with in that case.
\<close>

definition Iterator_init ::
  "nat \<Rightarrow> DB \<Rightarrow> bytes option \<Rightarrow> bool \<Rightarrow> bytes option \<Rightarrow> bytes option \<Rightarrow> bool \<Rightarrow> bool \<Rightarrow>
   bytes option \<Rightarrow> bool \<Rightarrow> bool \<Rightarrow> leveldb_Snapshot option \<Rightarrow> error + (Iterator \<times> DB)" where
  "Iterator_init self_id db_obj key_prefix reverse start0 stop0 include_start0 include_stop0
       prefix0 include_key0 include_value0 snapshot =
     (case db_ptr db_obj of
        None \<Rightarrow> Inl RuntimeError
      | Some e \<Rightarrow>
          (let (skip, prefix1, start1, include_start1, stop1, include_stop1) =
                 (case key_prefix of
                    None \<Rightarrow> (0, prefix0, start0, include_start0, stop0, include_stop0)
                  | Some kp \<Rightarrow>
                      (case prefix0 of
                         Some p \<Rightarrow>
                           (word_of_nat (length kp), Some (kp @ p), start0, include_start0, stop0, include_stop0)
                       | None \<Rightarrow>
                           (let (s, inc_s) =
                                  (case start0 of
                                     None \<Rightarrow> (Some kp, True)
                                   | Some s0 \<Rightarrow> (Some (kp @ s0), include_start0));
                                (t, inc_t) =
                                  (case stop0 of
                                     None \<Rightarrow> (bytes_increment kp, False)
                                   | Some t0 \<Rightarrow> (Some (kp @ t0), include_stop0))
                            in (word_of_nat (length kp), None, s, inc_s, t, inc_t))))
           in
             (case (case prefix1 of
                      None \<Rightarrow> Inr (start1, stop1, include_start1, include_stop1)
                    | Some p \<Rightarrow>
                        if start1 \<noteq> None \<or> stop1 \<noteq> None then Inl TypeError
                        else Inr (Some p, bytes_increment p, True, False)) of
                Inl err \<Rightarrow> Inl err
              | Inr (start2, stop2, include_start2, include_stop2) \<Rightarrow>
                  (let c = NewIterator e snapshot;
                       self = \<lparr> iter = Some c,
                                direction = (if \<not> reverse then FORWARD else REVERSE),
                                state = BEFORE_START,
                                comparator =
                                  (case opt_comparator (options db_obj) of
                                     Some cmp \<Rightarrow> Compare cmp
                                   | None \<Rightarrow> Compare (engine_comparator e)),
                                start = start2,
                                stop = stop2,
                                include_start = include_start2,
                                include_stop = include_stop2,
                                include_key = include_key0,
                                include_value = include_value0,
                                skip_key_bytes = skip \<rparr>
                   in
                     (case (if direction self = FORWARD then seek_to_start self
                            else seek_to_stop self) of
                        Inl err \<Rightarrow> Inl err
                      | Inr self' \<Rightarrow>
                          (case raise_for_status (cursor_status c) of
                             Some err \<Rightarrow> Inl err
                           | None \<Rightarrow> Inr (self', DB_register_iterator db_obj self_id)))))))"

section \<open>The iterator: moving\<close>

text \<open>
  What a call of \<open>__next__\<close> or \<open>prev\<close> does: it returns an item, raises
  \<open>StopIteration\<close>, or raises an error.  An item has the shape the flags \<open>include_key\<close>
  and \<open>include_value\<close> select.
\<close>

datatype item = KeyValue bytes bytes | KeyOnly bytes | ValueOnly bytes | NoneItem

datatype outcome = Return item | StopIteration | Raise error

text \<open>
  \<open>key_from\<close> is the slice \<open>key_slice.data()[self.skip_key_bytes:key_slice.size()]\<close>
  of the key's bytes in memory, which builds a byte string of \<open>size - skip\<close> bytes
  that starts \<open>skip\<close> bytes after the first one: with more bytes to skip than the key
  has, the size is negative and the construction of the byte string raises
  \<open>SystemError\<close>; with a negative number of bytes to skip it reads in front of the key.
  \<open>current\<close> reads the cursor only for the parts it returns, the key first.
\<close>

definition key_from :: "32 word \<Rightarrow> bytes \<Rightarrow> error + bytes" where
  "key_from skip k =
     (if sint skip < 0 then Inl InvalidMemoryAccess
      else if int (length k) - sint skip < 0 then Inl SystemError
      else Inr (drop (nat (sint skip)) k))"

definition current :: "Iterator \<Rightarrow> leveldb_Iterator \<Rightarrow> error + item" where
  "current self c =
     (if include_key self \<or> include_value self then
        (case cursor_entry c of
           None \<Rightarrow> Inl InvalidCursorAccess
         | Some (k, v) \<Rightarrow>
             (case (if include_key self then key_from (skip_key_bytes self) k else Inr []) of
                Inl err \<Rightarrow> Inl err
              | Inr key \<Rightarrow>
                  Inr (if include_key self \<and> include_value self then KeyValue key v
                       else if include_key self then KeyOnly key
                       else ValueOnly v)))
      else Inr NoneItem)"

text \<open>
  \<open>real_next\<close> in three parts.  \<open>position_at_start\<close> is the positioning of the
  branch for \<open>BEFORE_START\<close>: at the first entry when there is no start key; else at
  the start key, and one step on when the start is exclusive and the entry reached has
  the start key (the branch leaves the method with \<open>StopIteration\<close> as soon as the
  cursor is not valid, which is then the cursor it returns).  \<open>real_next_position\<close>
  is the \<open>if\<close>/\<open>elif\<close> chain over the state, which either leaves the method (\<open>Inl\<close>:
  the outcome and the iterator as it is then) or goes on with the cursor in place
  (\<open>Inr\<close>); \<open>real_next_check\<close> is the status check, the test of the stop bound and
  the return of the current item.
\<close>

definition position_at_start :: "Iterator \<Rightarrow> leveldb_Iterator \<Rightarrow> leveldb_Iterator" where
  "position_at_start self c =
     (case start self of
        None \<Rightarrow> SeekToFirst c
      | Some s \<Rightarrow>
          (let c1 = Seek c s in
           (case cursor_key c1 of
              None \<Rightarrow> c1
            | Some k \<Rightarrow>
                if \<not> include_start self \<and> comparator self k s = 0 then Next c1 else c1)))"

definition real_next_position ::
  "Iterator \<Rightarrow> leveldb_Iterator \<Rightarrow> (outcome \<times> Iterator) + (Iterator \<times> leveldb_Iterator)" where
  "real_next_position self c =
     (case state self of
        IN_BETWEEN \<Rightarrow>
          if \<not> Valid c then Inl (Raise InvalidCursorAccess, self)
          else
            (let c1 = Next c in
             if \<not> Valid c1 then Inl (StopIteration, self\<lparr>iter := Some c1, state := AFTER_STOP\<rparr>)
             else Inr (self\<lparr>iter := Some c1\<rparr>, c1))
      | IN_BETWEEN_ALREADY_POSITIONED \<Rightarrow> Inr (self\<lparr>state := IN_BETWEEN\<rparr>, c)
      | BEFORE_START \<Rightarrow>
          (let c1 = position_at_start self c in
           if \<not> Valid c1 then Inl (StopIteration, self\<lparr>iter := Some c1\<rparr>)
           else Inr (self\<lparr>iter := Some c1, state := IN_BETWEEN\<rparr>, c1))
      | AFTER_STOP \<Rightarrow> Inl (StopIteration, self))"

definition real_next_check :: "Iterator \<Rightarrow> leveldb_Iterator \<Rightarrow> outcome \<times> Iterator" where
  "real_next_check self c =
     (case raise_for_status (cursor_status c) of
        Some err \<Rightarrow> (Raise err, self)
      | None \<Rightarrow>
          (let yield = (case current self c of
                          Inl err \<Rightarrow> (Raise err, self)
                        | Inr out \<Rightarrow> (Return out, self))
           in
             (case stop self of
                None \<Rightarrow> yield
              | Some t \<Rightarrow>
                  (case cursor_key c of
                     None \<Rightarrow> (Raise InvalidCursorAccess, self)
                   | Some k \<Rightarrow>
                       if comparator self k t \<ge> (if include_stop self then 1 else 0)
                       then (StopIteration, self\<lparr>state := AFTER_STOP\<rparr>)
                       else yield))))"

definition real_next :: "Iterator \<Rightarrow> outcome \<times> Iterator" where
  "real_next self =
     (case iter self of
        None \<Rightarrow> (Raise RuntimeError, self)
      | Some c \<Rightarrow>
          (case real_next_position self c of
             Inl res \<Rightarrow> res
           | Inr (self1, c1) \<Rightarrow> real_next_check self1 c1))"

text \<open>
  \<open>real_prev\<close> in three parts.  \<open>reposition_at_stop\<close> is the repositioning of the branch
  for \<open>AFTER_STOP\<close>: at the last entry when there is no stop key; else at the stop key,
  one step back when the stop is exclusive, at the last entry when the seek found
  nothing, and one more step back when the entry reached is past the stop key.
  \<open>real_prev_position\<close> is the \<open>if\<close>/\<open>elif\<close> chain over the state.  \<open>real_prev_yield\<close>
  is the tail of the method: it takes the current item first, then moves the cursor one
  step back and sets the state from the new position.
\<close>

definition reposition_at_stop :: "Iterator \<Rightarrow> leveldb_Iterator \<Rightarrow> leveldb_Iterator" where
  "reposition_at_stop self c =
     (case stop self of
        None \<Rightarrow> SeekToLast c
      | Some t \<Rightarrow>
          (let c1 = Seek c t;
               c2 = (if Valid c1 then (if \<not> include_stop self then Prev c1 else c1)
                     else SeekToLast c1)
           in
             (case cursor_key c2 of
                None \<Rightarrow> c2
              | Some k \<Rightarrow> if comparator self k t > 0 then Prev c2 else c2)))"

definition real_prev_position ::
  "Iterator \<Rightarrow> leveldb_Iterator \<Rightarrow> (outcome \<times> Iterator) + (Iterator \<times> leveldb_Iterator)" where
  "real_prev_position self c =
     (case state self of
        IN_BETWEEN \<Rightarrow> Inr (self, c)
      | IN_BETWEEN_ALREADY_POSITIONED \<Rightarrow>
          if \<not> Valid c then Inl (Raise AssertionError, self)
          else
            (let c1 = Prev c in
             if \<not> Valid c1
             then Inl (StopIteration, self\<lparr>iter := Some c1, state := BEFORE_START\<rparr>)
             else
               (case raise_for_status (cursor_status c1) of
                  Some err \<Rightarrow> Inl (Raise err, self\<lparr>iter := Some c1\<rparr>)
                | None \<Rightarrow> Inr (self\<lparr>iter := Some c1\<rparr>, c1)))
      | BEFORE_START \<Rightarrow> Inl (StopIteration, self)
      | AFTER_STOP \<Rightarrow>
          (let c1 = reposition_at_stop self c in
           (case cursor_key c1 of
              None \<Rightarrow> Inl (StopIteration, self\<lparr>iter := Some c1\<rparr>)
            | Some k \<Rightarrow>
                if (case start self of None \<Rightarrow> False | Some s \<Rightarrow> comparator self s k \<ge> 0)
                then Inl (StopIteration, self\<lparr>iter := Some c1\<rparr>)
                else
                  (case raise_for_status (cursor_status c1) of
                     Some err \<Rightarrow> Inl (Raise err, self\<lparr>iter := Some c1\<rparr>)
                   | None \<Rightarrow> Inr (self\<lparr>iter := Some c1\<rparr>, c1)))))"

definition real_prev_yield :: "Iterator \<Rightarrow> leveldb_Iterator \<Rightarrow> outcome \<times> Iterator" where
  "real_prev_yield self c =
     (case current self c of
        Inl err \<Rightarrow> (Raise err, self)
      | Inr out \<Rightarrow>
          if \<not> Valid c then (Raise InvalidCursorAccess, self)
          else
            (let c1 = Prev c;
                 self1 =
                   (case cursor_key c1 of
                      None \<Rightarrow> self\<lparr>iter := Some c1, state := BEFORE_START\<rparr>
                    | Some k \<Rightarrow>
                        (case start self of
                           None \<Rightarrow> self\<lparr>iter := Some c1, state := IN_BETWEEN\<rparr>
                         | Some s \<Rightarrow>
                             if comparator self k s \<ge> (if include_start self then 0 else 1)
                             then self\<lparr>iter := Some c1, state := IN_BETWEEN\<rparr>
                             else self\<lparr>iter := Some c1, state := BEFORE_START\<rparr>))
             in
               (case raise_for_status (cursor_status c1) of
                  Some err \<Rightarrow> (Raise err, self1)
                | None \<Rightarrow> (Return out, self1))))"

definition real_prev :: "Iterator \<Rightarrow> outcome \<times> Iterator" where
  "real_prev self =
     (case iter self of
        None \<Rightarrow> (Raise RuntimeError, self)
      | Some c \<Rightarrow>
          (case real_prev_position self c of
             Inl res \<Rightarrow> res
           | Inr (self1, c1) \<Rightarrow> real_prev_yield self1 c1))"

text \<open>\<open>__next__\<close> and \<open>prev\<close> choose the physical motion by the direction.\<close>

definition Iterator_next :: "Iterator \<Rightarrow> outcome \<times> Iterator" where
  "Iterator_next self = (if direction self = FORWARD then real_next self else real_prev self)"

definition Iterator_prev :: "Iterator \<Rightarrow> outcome \<times> Iterator" where
  "Iterator_prev self = (if direction self = FORWARD then real_prev self else real_next self)"

text \<open>
  \<open>seek\<close> returns the exception raised, if any, and the iterator after the call (the
  state is set before the status check).
\<close>

definition seek_target :: "Iterator \<Rightarrow> bytes \<Rightarrow> bytes" where
  "seek_target self target =
     (let t1 = (case start self of
                  None \<Rightarrow> target
                | Some s \<Rightarrow> if comparator self target s < 0 then s else target)
      in (case stop self of
            None \<Rightarrow> t1
          | Some t \<Rightarrow> if comparator self t1 t > 0 then t else t1))"

definition seek :: "Iterator \<Rightarrow> bytes \<Rightarrow> error option \<times> Iterator" where
  "seek self target =
     (case iter self of
        None \<Rightarrow> (Some RuntimeError, self)
      | Some c \<Rightarrow>
          (let c1 = Seek c (seek_target self target) in
           if \<not> Valid c1 then (None, self\<lparr>iter := Some c1, state := AFTER_STOP\<rparr>)
           else (raise_for_status (cursor_status c1),
                 self\<lparr>iter := Some c1, state := IN_BETWEEN_ALREADY_POSITIONED\<rparr>)))"

text \<open>
  Consuming an iterator (\<open>list(it)\<close>, a \<open>for\<close> loop): \<open>__next__\<close> is called until it
  raises.  The loop is bounded by a number of calls; \<open>None\<close> means that the bound was
  reached before the iterator stopped, otherwise the result is the items in the order
  they came and the error that ended the loop, if it was not \<open>StopIteration\<close>.
\<close>

fun consume :: "nat \<Rightarrow> Iterator \<Rightarrow> (item list \<times> error option) option" where
  "consume 0 self = None"
| "consume (Suc n) self =
     (case Iterator_next self of
        (Return out, self') \<Rightarrow>
          (case consume n self' of
             None \<Rightarrow> None
           | Some (outs, err) \<Rightarrow> Some (out # outs, err))
      | (StopIteration, self') \<Rightarrow> Some ([], None)
      | (Raise err, self') \<Rightarrow> Some ([], Some err))"

section \<open>The write batch\<close>

text \<open>
  The fields of the class \<open>WriteBatch\<close>: \<open>staged\<close> is the engine-side batch
  \<open>_write_batch\<close>, \<open>batch_prefix\<close> the field \<open>prefix\<close>.  The reference \<open>db\<close> is shared with
  the other users of the store handle, so every method takes the handle as it is at
  the time of the call and \<open>write\<close> returns the handle after the call.  The write option
  \<open>sync\<close> changes nothing in this model of the engine.
\<close>

record WriteBatch =
  staged :: "batch_op list"
  batch_prefix :: "bytes option"
  transaction :: bool

definition WriteBatch_put :: "WriteBatch \<Rightarrow> DB \<Rightarrow> bytes \<Rightarrow> bytes \<Rightarrow> error + WriteBatch" where
  "WriteBatch_put self db_obj k v =
     (case db_ptr db_obj of
        None \<Rightarrow> Inl RuntimeError
      | Some e \<Rightarrow>
          (let k1 = (case batch_prefix self of None \<Rightarrow> k | Some p \<Rightarrow> p @ k)
           in Inr (self\<lparr>staged := staged self @ [Put k1 v]\<rparr>)))"

definition WriteBatch_delete :: "WriteBatch \<Rightarrow> DB \<Rightarrow> bytes \<Rightarrow> error + WriteBatch" where
  "WriteBatch_delete self db_obj k =
     (case db_ptr db_obj of
        None \<Rightarrow> Inl RuntimeError
      | Some e \<Rightarrow>
          (let k1 = (case batch_prefix self of None \<Rightarrow> k | Some p \<Rightarrow> p @ k)
           in Inr (self\<lparr>staged := staged self @ [Delete k1]\<rparr>)))"

definition WriteBatch_clear :: "WriteBatch \<Rightarrow> DB \<Rightarrow> error + WriteBatch" where
  "WriteBatch_clear self db_obj =
     (case db_ptr db_obj of
        None \<Rightarrow> Inl RuntimeError
      | Some e \<Rightarrow> Inr (self\<lparr>staged := []\<rparr>))"

definition WriteBatch_write :: "WriteBatch \<Rightarrow> DB \<Rightarrow> error + DB" where
  "WriteBatch_write self db_obj =
     (case db_ptr db_obj of
        None \<Rightarrow> Inl RuntimeError
      | Some e \<Rightarrow>
          (let (st, e') = leveldb_Write e (staged self) in
           (case raise_for_status st of
              Some err \<Rightarrow> Inl err
            | None \<Rightarrow> Inr (db_obj\<lparr>db_ptr := Some e'\<rparr>))))"

definition WriteBatch_enter :: "WriteBatch \<Rightarrow> DB \<Rightarrow> error + WriteBatch" where
  "WriteBatch_enter self db_obj =
     (case db_ptr db_obj of
        None \<Rightarrow> Inl RuntimeError
      | Some e \<Rightarrow> Inr self)"

text \<open>
  \<open>__exit__\<close>: \<open>exc_type\<close> is \<open>None\<close> on a normal exit of the scope and the exception
  otherwise.  The result is the exception \<open>__exit__\<close> raises (\<open>Inl\<close>) or the truth value
  of what it returns (\<open>Inr\<close>; the source returns \<open>None\<close> on both paths, which is false),
  with the batch and the store handle after the call.
\<close>

definition WriteBatch_exit ::
  "WriteBatch \<Rightarrow> DB \<Rightarrow> error option \<Rightarrow> (error + bool) \<times> WriteBatch \<times> DB" where
  "WriteBatch_exit self db_obj exc_type =
     (case db_ptr db_obj of
        None \<Rightarrow> (Inl RuntimeError, self, db_obj)
      | Some e \<Rightarrow>
          if transaction self \<and> exc_type \<noteq> None then
            (case WriteBatch_clear self db_obj of
               Inl err \<Rightarrow> (Inl err, self, db_obj)
             | Inr self' \<Rightarrow> (Inr False, self', db_obj))
          else
            (case WriteBatch_write self db_obj of
               Inl err \<Rightarrow> (Inl err, self, db_obj)
             | Inr db' \<Rightarrow>
                 (case WriteBatch_clear self db' of
                    Inl err \<Rightarrow> (Inl err, self, db')
                  | Inr self' \<Rightarrow> (Inr False, self', db'))))"

text \<open>
  The \<open>with\<close> statement of Python around a batch.  The body of the scope is any code of
  the caller: from the batch and the handle it gives the exception that left it (\<open>None\<close>
  when it ran to its end) and the batch and handle as it left them.  The statement
  returns the exception that reaches the caller: the one \<open>__enter__\<close> or \<open>__exit__\<close>
  raises, else the body's unless \<open>__exit__\<close> returned a true value.
\<close>

definition with_WriteBatch ::
  "WriteBatch \<Rightarrow> DB \<Rightarrow> (WriteBatch \<Rightarrow> DB \<Rightarrow> error option \<times> WriteBatch \<times> DB) \<Rightarrow>
   error option \<times> WriteBatch \<times> DB" where
  "with_WriteBatch wb db_obj body =
     (case WriteBatch_enter wb db_obj of
        Inl err \<Rightarrow> (Some err, wb, db_obj)
      | Inr wb0 \<Rightarrow>
          (let (exc, wb1, db1) = body wb0 db_obj in
           (case WriteBatch_exit wb1 db1 exc of
              (Inl err, wb2, db2) \<Rightarrow> (Some err, wb2, db2)
            | (Inr suppress, wb2, db2) \<Rightarrow> ((if suppress then None else exc), wb2, db2))))"

section \<open>Orders of release\<close>

text \<open>
  Two rankings of the releases that \<open>DB.close\<close> performs.  \<open>close_phase\<close>: iterators
  first, the engine connection second, the option resources last.
  \<open>close_phase_engine_last\<close>: iterators first, the option resources second, the engine
  connection last.  A list of releases follows a ranking when its ranks never decrease.
\<close>

fun close_phase :: "close_event \<Rightarrow> nat" where
  "close_phase (Iterator_closed ident) = 0"
| "close_phase Engine_closed = 1"
| "close_phase Block_cache_released = 2"
| "close_phase Filter_policy_released = 2"
| "close_phase Comparator_released = 2"

fun close_phase_engine_last :: "close_event \<Rightarrow> nat" where
  "close_phase_engine_last (Iterator_closed ident) = 0"
| "close_phase_engine_last Block_cache_released = 1"
| "close_phase_engine_last Filter_policy_released = 1"
| "close_phase_engine_last Comparator_released = 1"
| "close_phase_engine_last Engine_closed = 2"

section \<open>The window of a seek\<close>

text \<open>
  Clamping a target into the window from \<open>lo\<close> to \<open>hi\<close> under a comparator: a target
  below \<open>lo\<close> becomes \<open>lo\<close>, a target above \<open>hi\<close> becomes \<open>hi\<close>, any other target stays.
  A bound that is \<open>None\<close> is absent.
\<close>

definition clamp_into_window ::
  "(bytes \<Rightarrow> bytes \<Rightarrow> int) \<Rightarrow> bytes option \<Rightarrow> bytes option \<Rightarrow> bytes \<Rightarrow> bytes" where
  "clamp_into_window cmp lo hi target =
     (case lo of
        Some s \<Rightarrow>
          if cmp target s < 0 then s
          else (case hi of Some t \<Rightarrow> if cmp target t > 0 then t else target | None \<Rightarrow> target)
      | None \<Rightarrow>
          (case hi of Some t \<Rightarrow> if cmp target t > 0 then t else target | None \<Rightarrow> target))"

section \<open>Bounds, ordered stores and traversals\<close>

text \<open>
  The bound predicate of an iterator: a key is within the start bound when there is no
  start key or the key compares at or after it (after it, when the start is exclusive),
  and within the stop bound when there is no stop key or the key compares at or before
  it (before it, when the stop is exclusive).  The two tests are written as the source
  writes them, with the numbers 0 and 1.
\<close>

definition within_start :: "Iterator \<Rightarrow> bytes \<Rightarrow> bool" where
  "within_start self k =
     (case start self of
        None \<Rightarrow> True
      | Some s \<Rightarrow> comparator self k s \<ge> (if include_start self then 0 else 1))"

definition within_stop :: "Iterator \<Rightarrow> bytes \<Rightarrow> bool" where
  "within_stop self k =
     (case stop self of
        None \<Rightarrow> True
      | Some t \<Rightarrow> \<not> comparator self k t \<ge> (if include_stop self then 1 else 0))"

definition within_bounds :: "Iterator \<Rightarrow> bytes \<Rightarrow> bool" where
  "within_bounds self k = (within_start self k \<and> within_stop self k)"

text \<open>
  What \<open>current\<close> returns with the cursor on an entry: the item \<open>item_of\<close> when the key
  can be cut as \<open>key_from\<close> cuts it (or is not returned at all), and the error of
  \<open>key_from\<close> otherwise.
\<close>

definition sliceable :: "Iterator \<Rightarrow> bytes \<Rightarrow> bool" where
  "sliceable self k =
     (include_key self \<longrightarrow>
        0 \<le> sint (skip_key_bytes self) \<and> sint (skip_key_bytes self) \<le> int (length k))"

definition item_of :: "Iterator \<Rightarrow> bytes \<times> bytes \<Rightarrow> item" where
  "item_of self e =
     (if include_key self \<and> include_value self
      then KeyValue (drop (nat (sint (skip_key_bytes self))) (fst e)) (snd e)
      else if include_key self then KeyOnly (drop (nat (sint (skip_key_bytes self))) (fst e))
      else if include_value self then ValueOnly (snd e)
      else NoneItem)"

definition item_at :: "Iterator \<Rightarrow> bytes \<times> bytes \<Rightarrow> error + item" where
  "item_at self e =
     (if sliceable self (fst e) then Inr (item_of self e)
      else if sint (skip_key_bytes self) < 0 then Inl InvalidMemoryAccess
      else Inl SystemError)"

text \<open>The outcome of a call that returns what \<open>current\<close> returns.\<close>

definition outcome_of :: "error + item \<Rightarrow> outcome" where
  "outcome_of r = (case r of Inl err \<Rightarrow> Raise err | Inr out \<Rightarrow> Return out)"

text \<open>
  A comparator is a total order when it is zero exactly on equal keys, its sign flips
  with its arguments, and it is transitive.  The entries a cursor reads are ordered for
  an iterator when the iterator's comparator is a total order and the one of the
  engine, and the entries are strictly ascending in it.  An iterator is over an ordered
  store when it is live, the entries its cursor reads are ordered, and the engine
  reports no error.
\<close>

definition total_order :: "(bytes \<Rightarrow> bytes \<Rightarrow> int) \<Rightarrow> bool" where
  "total_order cmp =
     ((\<forall>a b. (cmp a b = 0) = (a = b)) \<and>
      (\<forall>a b. (cmp a b < 0) = (cmp b a > 0)) \<and>
      (\<forall>a b c. cmp a b < 0 \<and> cmp b c < 0 \<longrightarrow> cmp a c < 0))"

definition ordered_entries :: "Iterator \<Rightarrow> leveldb_Iterator \<Rightarrow> bool" where
  "ordered_entries self c =
     (total_order (comparator self) \<and>
      ordering c = comparator self \<and>
      sorted_wrt (\<lambda>a b. comparator self (fst a) (fst b) < 0) (entries c))"

definition ordered_cursor :: "Iterator \<Rightarrow> leveldb_Iterator \<Rightarrow> bool" where
  "ordered_cursor self c = (ordered_entries self c \<and> cursor_status c = StatusOK)"

definition ordered_store :: "Iterator \<Rightarrow> bool" where
  "ordered_store self = (case iter self of None \<Rightarrow> False | Some c \<Rightarrow> ordered_cursor self c)"

text \<open>
  The cursor of an iterator agrees with the bounds when the state is one of the two at
  the ends (where \<open>__init__\<close>, \<open>seek_to_start\<close> and \<open>seek_to_stop\<close> leave it), or is
  \<open>IN_BETWEEN\<close> with the cursor on an entry within the bounds; the cursor, unless the
  iterator has been closed, reads ordered entries.  The state that \<open>seek\<close> sets is
  none of these: \<open>seek\<close> looks at neither \<open>include_start\<close> nor \<open>include_stop\<close>, and
  the calls that follow it can return entries that the bounds exclude.

  The points of a traversal by \<open>next()\<close> and \<open>prev()\<close>: it starts where the cursor
  agrees with the bounds, and every call of \<open>__next__\<close> or \<open>prev\<close> leads to the next
  point.
\<close>

definition cursor_agrees :: "Iterator \<Rightarrow> bool" where
  "cursor_agrees self =
     (state self \<noteq> IN_BETWEEN_ALREADY_POSITIONED \<and>
      (case iter self of
         None \<Rightarrow> True
       | Some c \<Rightarrow>
           ordered_entries self c \<and>
           (state self = IN_BETWEEN \<longrightarrow>
              (case cursor_key c of None \<Rightarrow> False | Some k \<Rightarrow> within_bounds self k))))"

inductive traversal :: "Iterator \<Rightarrow> bool" where
  at_start: "cursor_agrees self \<Longrightarrow> traversal self"
| after_next: "traversal self \<Longrightarrow> traversal (snd (Iterator_next self))"
| after_prev: "traversal self \<Longrightarrow> traversal (snd (Iterator_prev self))"

text \<open>
  The cursor of an iterator is on the start key when it is on an entry whose key
  compares equal to the start key.
\<close>

definition on_start_key :: "Iterator \<Rightarrow> bool" where
  "on_start_key self =
     (case iter self of
        None \<Rightarrow> False
      | Some c \<Rightarrow>
          (case cursor_key c of
             None \<Rightarrow> False
           | Some k \<Rightarrow>
               (case start self of
                  None \<Rightarrow> False
                | Some s \<Rightarrow> comparator self k s = 0)))"

text \<open>
  Where the two ends land in the entries: the position of the first entry within the
  start bound, and the position of the last entry of the leading run of entries within
  the stop bound.
\<close>

definition first_from_start :: "Iterator \<Rightarrow> store_entries \<Rightarrow> nat option" where
  "first_from_start self es =
     (let j = length (takeWhile (\<lambda>e. \<not> within_start self (fst e)) es)
      in if j < length es then Some j else None)"

definition last_before_stop :: "Iterator \<Rightarrow> store_entries \<Rightarrow> nat option" where
  "last_before_stop self es =
     (let m = length (takeWhile (\<lambda>e. within_stop self (fst e)) es)
      in if m = 0 then None else Some (m - 1))"

text \<open>An iterator with its cursor moved to a position and its state set.\<close>

definition moved :: "Iterator \<Rightarrow> leveldb_Iterator \<Rightarrow> nat option \<Rightarrow> IteratorState \<Rightarrow> Iterator" where
  "moved self c p st = self\<lparr>iter := Some (c\<lparr>position := p\<rparr>), state := st\<rparr>"

text \<open>
  What a call of \<open>__next__\<close> or \<open>prev\<close> keeps of an iterator: its direction and its
  comparator, whether it is closed, and the entries, the order and the status of its
  cursor.
\<close>

definition keeps_store :: "Iterator \<Rightarrow> Iterator \<Rightarrow> bool" where
  "keeps_store self self' =
     (direction self' = direction self \<and>
      comparator self' = comparator self \<and>
      (case iter self of
         None \<Rightarrow> iter self' = None
       | Some c \<Rightarrow>
           (case iter self' of
              None \<Rightarrow> False
            | Some c' \<Rightarrow>
                entries c' = entries c \<and> ordering c' = ordering c \<and>
                cursor_status c' = cursor_status c)))"

text \<open>
  What holds at every point of a traversal on which the engine reports no error: the
  store is ordered, the state is not the one that only \<open>seek\<close> sets, and in the state
  \<open>IN_BETWEEN\<close> the cursor is on an entry within the bounds.
\<close>

definition settled :: "Iterator \<Rightarrow> bool" where
  "settled self =
     (ordered_store self \<and>
      state self \<noteq> IN_BETWEEN_ALREADY_POSITIONED \<and>
      (state self = IN_BETWEEN \<longrightarrow>
         (\<exists>c k. iter self = Some c \<and> cursor_key c = Some k \<and> within_bounds self k)))"

section \<open>Concrete stores\<close>

text \<open>
  A store with the three entries \<open>a \<mapsto> 1\<close>, \<open>b \<mapsto> 2\<close>, \<open>c \<mapsto> 3\<close> under the bytewise order,
  and an open handle on it with a block cache, a filter policy and no registered
  iterator.
\<close>

definition abc_engine :: leveldb_DB where
  "abc_engine =
     \<lparr> contents = [([0x61], [0x31]), ([0x62], [0x32]), ([0x63], [0x33])],
       engine_comparator = BytewiseComparator,
       engine_status = StatusOK \<rparr>"

definition abc_DB :: DB where
  "abc_DB =
     \<lparr> db_ptr = Some abc_engine,
       options = \<lparr> block_cache = Some 8, filter_policy = Some 10,
                   opt_comparator = Some BytewiseComparator \<rparr>,
       iterators = Some [] \<rparr>"

text \<open>
  Two scope bodies for a write batch: both stage the put \<open>d \<mapsto> 4\<close>; the first runs to its
  end, the second then fails with an exception of the caller's.
\<close>

definition stage_d :: "WriteBatch \<Rightarrow> DB \<Rightarrow> error option \<times> WriteBatch \<times> DB" where
  "stage_d wb db_obj =
     (case WriteBatch_put wb db_obj [0x64] [0x34] of
        Inl err \<Rightarrow> (Some err, wb, db_obj)
      | Inr wb' \<Rightarrow> (None, wb', db_obj))"

definition stage_d_then_fail :: "WriteBatch \<Rightarrow> DB \<Rightarrow> error option \<times> WriteBatch \<times> DB" where
  "stage_d_then_fail wb db_obj =
     (case WriteBatch_put wb db_obj [0x64] [0x34] of
        Inl err \<Rightarrow> (Some err, wb, db_obj)
      | Inr wb' \<Rightarrow> (Some (OtherException 7), wb', db_obj))"

definition abcd_engine :: leveldb_DB where
  "abcd_engine =
     \<lparr> contents = [([0x61], [0x31]), ([0x62], [0x32]), ([0x63], [0x33]), ([0x64], [0x34])],
       engine_comparator = BytewiseComparator,
       engine_status = StatusOK \<rparr>"

text \<open>
  A forward iterator over the three entries with no bounds, as \<open>__init__\<close> leaves it
  (lemma \<open>abc_iterator_constructed\<close>), the handle that has registered it under the
  identity 1, and the heap that holds it.
\<close>

definition abc_iterator :: Iterator where
  "abc_iterator =
     \<lparr> iter = Some (NewIterator abc_engine None),
       direction = FORWARD,
       state = BEFORE_START,
       comparator = bytewise_compare,
       start = None,
       stop = None,
       include_start = True,
       include_stop = False,
       include_key = True,
       include_value = True,
       skip_key_bytes = 0 \<rparr>"

definition abc_DB_registered :: DB where
  "abc_DB_registered = abc_DB\<lparr>iterators := Some [1]\<rparr>"

definition abc_heap :: heap where
  "abc_heap = (\<lambda>ident. if ident = 1 then Some abc_iterator else None)"

text \<open>
  The same iterator with the bounds \<open>start = b\<close> (inclusive) and \<open>stop = c\<close> (inclusive).
\<close>

definition bc_iterator :: Iterator where
  "bc_iterator = abc_iterator\<lparr>start := Some [0x62], stop := Some [0x63], include_stop := True\<rparr>"

text \<open>
  A store with the single entry \<open>a \<mapsto> 1\<close>, an open handle on it, and the two iterators
  that \<open>__init__\<close> builds over it for \<open>start = a\<close> with \<open>include_start\<close> true and no
  stop key: the forward one and the reverse one (lemma \<open>a_iterators_constructed\<close>).
\<close>

definition a_engine :: leveldb_DB where
  "a_engine =
     \<lparr> contents = [([0x61], [0x31])],
       engine_comparator = BytewiseComparator,
       engine_status = StatusOK \<rparr>"

definition a_DB :: DB where
  "a_DB =
     \<lparr> db_ptr = Some a_engine,
       options = \<lparr> block_cache = None, filter_policy = None,
                   opt_comparator = Some BytewiseComparator \<rparr>,
       iterators = Some [] \<rparr>"

definition a_forward :: Iterator where
  "a_forward =
     \<lparr> iter = Some (NewIterator a_engine None),
       direction = FORWARD,
       state = BEFORE_START,
       comparator = bytewise_compare,
       start = Some [0x61],
       stop = None,
       include_start = True,
       include_stop = False,
       include_key = True,
       include_value = True,
       skip_key_bytes = 0 \<rparr>"

definition a_reverse :: Iterator where
  "a_reverse = a_forward\<lparr>direction := REVERSE, state := AFTER_STOP\<rparr>"

text \<open>
  A forward iterator over the three entries with \<open>start = a\<close> and \<open>include_start\<close> false,
  as \<open>__init__\<close> leaves it; the same after \<open>seek(a)\<close>; and the same after \<open>seek(a)\<close> and
  one \<open>__next__\<close>.
\<close>

definition after_a_iterator :: Iterator where
  "after_a_iterator = abc_iterator\<lparr>start := Some [0x61], include_start := False\<rparr>"

definition after_a_seek :: Iterator where
  "after_a_seek = snd (seek after_a_iterator [0x61])"

definition after_a_seek_next :: Iterator where
  "after_a_seek_next = snd (Iterator_next after_a_seek)"

text \<open>
  A forward iterator over the three entries with \<open>start = c\<close> and \<open>stop = b\<close>, as
  \<open>__init__\<close> leaves it (lemma \<open>cb_iterator_constructed\<close>): its start key is above its
  stop key.
\<close>

definition cb_iterator :: Iterator where
  "cb_iterator = abc_iterator\<lparr>start := Some [0x63], stop := Some [0x62]\<rparr>"

text \<open>
  A heap with no iterator; a scope body for a write batch that stages the put
  \<open>d \<mapsto> 4\<close>, closes the store handle and then fails with an exception of the
  caller's; and a store whose engine rejects every write with an I/O error, with an
  open handle on it.
\<close>

definition no_iterators :: heap where
  "no_iterators = (\<lambda>ident. None)"

definition stage_d_close_then_fail ::
  "WriteBatch \<Rightarrow> DB \<Rightarrow> error option \<times> WriteBatch \<times> DB" where
  "stage_d_close_then_fail wb db_obj =
     (case WriteBatch_put wb db_obj [0x64] [0x34] of
        Inl err \<Rightarrow> (Some err, wb, db_obj)
      | Inr wb' \<Rightarrow> (Some (OtherException 7), wb', fst (DB_close db_obj no_iterators)))"

definition failing_engine :: leveldb_DB where
  "failing_engine = abc_engine\<lparr>engine_status := StatusIOError\<rparr>"

definition failing_DB :: DB where
  "failing_DB = abc_DB\<lparr>db_ptr := Some failing_engine\<rparr>"

section \<open>Properties of \<open>bytes_increment\<close>\<close>

declare bytes_increment_loop.simps [simp del]

lemma sint_pred:
  fixes i :: "32 word"
  assumes "0 \<le> sint i"
  shows "sint (i - 1) = sint i - 1"
proof -
  have "sint i < 2 ^ 31"
    using sint_lt [of i] by simp
  with assms show ?thesis
    by (simp add: sint_word_ariths signed_take_bit_int_eq_self)
qed

lemma sint_index:
  assumes "n \<le> 2 ^ 31"
  shows "sint (word_of_int (int n - 1) :: 32 word) = int n - 1"
  using assms unfolding sint_sbintrunc' by (simp add: signed_take_bit_int_eq_self)

text \<open>The index the loop starts from is never past the end of the string.\<close>

lemma bytes_increment_index_inside:
  "sint (word_of_int (int (length s) - 1) :: 32 word) < int (length s)"
proof (cases "length s \<le> 2 ^ 31")
  case True
  then show ?thesis by (simp only: sint_index)
next
  case False
  have "sint (word_of_int (int (length s) - 1) :: 32 word) < 2 ^ 31"
    using sint_lt [of "word_of_int (int (length s) - 1) :: 32 word"] by simp
  with False show ?thesis by simp
qed

lemma bytes_increment_loop_None:
  "sint i < int (length b) \<Longrightarrow>
   (bytes_increment_loop b i = None) = (\<forall>j. j \<le> nat (sint i) \<longrightarrow> 0 \<le> sint i \<longrightarrow> b ! j = 0xff)"
proof (induction b i rule: bytes_increment_loop.induct)
  case (1 b i)
  show ?case
  proof (cases "sint i \<ge> 0")
    case False
    then show ?thesis by (simp add: bytes_increment_loop.simps [of b i])
  next
    case True
    then have pred: "sint (i - 1) = sint i - 1" by (rule sint_pred)
    show ?thesis
    proof (cases "b ! nat (sint i) = 0xff")
      case False
      with True show ?thesis
        by (auto simp: bytes_increment_loop.simps [of b i])
    next
      case ff: True
      have IH: "(bytes_increment_loop b (i - 1) = None) =
          (\<forall>j. j \<le> nat (sint i - 1) \<longrightarrow> 0 \<le> sint i - 1 \<longrightarrow> b ! j = 0xff)"
        using "1.IH" [OF True ff] "1.prems" pred by simp
      have "(\<forall>j. j \<le> nat (sint i) \<longrightarrow> b ! j = 0xff) =
          (\<forall>j. j \<le> nat (sint i - 1) \<longrightarrow> 0 \<le> sint i - 1 \<longrightarrow> b ! j = 0xff)"
      proof (cases "sint i = 0")
        case True
        then show ?thesis using ff by simp
      next
        case False
        with True have pos: "0 \<le> sint i - 1" by simp
        have "\<And>j. j \<le> nat (sint i) \<longleftrightarrow> j \<le> nat (sint i - 1) \<or> j = nat (sint i)"
          using pos by auto
        then show ?thesis using ff pos by auto
      qed
      then show ?thesis
        using True ff IH by (simp add: bytes_increment_loop.simps [of b i])
    qed
  qed
qed

lemma bytes_increment_loop_Some:
  "sint i < int (length b) \<Longrightarrow> 0 \<le> m \<Longrightarrow> m \<le> sint i \<Longrightarrow> b ! nat m \<noteq> 0xff \<Longrightarrow>
   (\<forall>j. m < j \<and> j \<le> sint i \<longrightarrow> b ! nat j = 0xff) \<Longrightarrow>
   bytes_increment_loop b i = Some (take (nat m) b @ [b ! nat m + 1])"
proof (induction b i rule: bytes_increment_loop.induct)
  case (1 b i)
  from "1.prems" have nonneg: "0 \<le> sint i" by simp
  then have pred: "sint (i - 1) = sint i - 1" by (rule sint_pred)
  show ?case
  proof (cases "m = sint i")
    case True
    have "take (nat (sint i + 1)) (b[nat (sint i) := b ! nat (sint i) + 1]) =
        take (nat (sint i)) b @ [b ! nat (sint i) + 1]"
      using "1.prems" True
      by (simp add: nat_add_distrib take_Suc_conv_app_nth)
    then show ?thesis using "1.prems" True
      by (simp add: bytes_increment_loop.simps [of b i])
  next
    case False
    with "1.prems" have lt: "m < sint i" by simp
    then have ff: "b ! nat (sint i) = 0xff" using "1.prems" by simp
    have "bytes_increment_loop b (i - 1) = Some (take (nat m) b @ [b ! nat m + 1])"
      using "1.IH" [OF nonneg ff] "1.prems" lt pred by simp
    then show ?thesis using lt ff nonneg
      by (simp add: bytes_increment_loop.simps [of b i])
  qed
qed

text \<open>
  For every byte string \<open>k\<close> of at most \<open>2 ^ 31\<close> bytes, \<open>bytes_increment k\<close> is \<open>None\<close>
  exactly when every byte of \<open>k\<close> is \<open>0xff\<close> (the empty string included); and when \<open>i\<close>
  is the position of the last byte of \<open>k\<close> that is not \<open>0xff\<close>, the result is \<open>k\<close> cut
  after position \<open>i\<close> with that byte incremented.  In particular
  \<open>bytes_increment(b"\xff\xff")\<close> is \<open>None\<close> and \<open>bytes_increment(b"a\xff")\<close> is
  \<open>b"b"\<close>.
\<close>

lemma bytes_increment_last_non_ff:
  assumes "length k \<le> 2 ^ 31"
  shows "(bytes_increment k = None \<longleftrightarrow> (\<forall>b \<in> set k. b = 0xff)) \<and>
     (\<forall>i. i < length k \<and> k ! i \<noteq> 0xff \<and> (\<forall>j. i < j \<and> j < length k \<longrightarrow> k ! j = 0xff)
          \<longrightarrow> bytes_increment k = Some (take i k @ [k ! i + 1]))"
proof (intro conjI allI impI)
  let ?i = "word_of_int (int (length k) - 1) :: 32 word"
  have idx: "sint ?i = int (length k) - 1"
    using assms by (rule sint_index)
  show "bytes_increment k = None \<longleftrightarrow> (\<forall>b \<in> set k. b = 0xff)"
  proof (cases "k = []")
    case True
    then show ?thesis
      by (simp add: bytes_increment_def bytes_increment_loop.simps [of "[]" "-1"])
  next
    case False
    then have len: "0 < length k" by simp
    have "(bytes_increment_loop k ?i = None) = (\<forall>j. j \<le> nat (sint ?i) \<longrightarrow> 0 \<le> sint ?i \<longrightarrow> k ! j = 0xff)"
      by (rule bytes_increment_loop_None) (rule bytes_increment_index_inside)
    then have "(bytes_increment k = None) = (\<forall>j. j \<le> length k - 1 \<longrightarrow> k ! j = 0xff)"
      using len unfolding bytes_increment_def idx by (simp add: nat_diff_distrib')
    also have "\<dots> = (\<forall>j < length k. k ! j = 0xff)"
    proof -
      have "\<And>j. j \<le> length k - 1 \<longleftrightarrow> j < length k"
        using len by arith
      then show ?thesis by simp
    qed
    also have "\<dots> = (\<forall>b \<in> set k. b = 0xff)"
      by (simp add: all_set_conv_all_nth)
    finally show ?thesis .
  qed
  fix i
  assume a: "i < length k \<and> k ! i \<noteq> 0xff \<and> (\<forall>j. i < j \<and> j < length k \<longrightarrow> k ! j = 0xff)"
  have ff: "\<forall>j. int i < j \<and> j \<le> sint ?i \<longrightarrow> k ! nat j = 0xff"
  proof (intro allI impI)
    fix j :: int
    assume "int i < j \<and> j \<le> sint ?i"
    then have "i < nat j \<and> nat j < length k" unfolding idx by linarith
    with a show "k ! nat j = 0xff" by blast
  qed
  have "bytes_increment_loop k ?i = Some (take (nat (int i)) k @ [k ! nat (int i) + 1])"
  proof (rule bytes_increment_loop_Some)
    show "sint ?i < int (length k)" by (rule bytes_increment_index_inside)
    show "0 \<le> int i" by simp
    show "int i \<le> sint ?i" using a by (simp only: idx, simp)
    show "k ! nat (int i) \<noteq> 0xff" using a by simp
    show "\<forall>j. int i < j \<and> j \<le> sint ?i \<longrightarrow> k ! nat j = 0xff" by (rule ff)
  qed
  then show "bytes_increment k = Some (take i k @ [k ! i + 1])"
    by (simp add: bytes_increment_def)
qed

lemma bytes_increment_examples:
  "bytes_increment [1, 2, 0xff, 3, 0xff, 0xff] = Some [1, 2, 0xff, 4] \<and>
   bytes_increment [0xff, 0xff] = None \<and>
   bytes_increment [0x61, 0xff] = Some [0x62] \<and>
   bytes_increment [] = None"
proof -
  let ?k = "[1, 2, 0xff, 3, 0xff, 0xff] :: bytes"
  have "\<forall>j. 3 < j \<and> j < length ?k \<longrightarrow> ?k ! j = 0xff"
    by (auto simp: nth_Cons')
  then have "bytes_increment ?k = Some (take 3 ?k @ [?k ! 3 + 1])"
    using bytes_increment_last_non_ff [of ?k, THEN conjunct2, rule_format, of 3]
    by simp
  then have "bytes_increment ?k = Some [1, 2, 0xff, 4]"
    by (simp add: numeral_3_eq_3)
  moreover have "bytes_increment [] = None"
    using bytes_increment_last_non_ff [of "[]"] by simp
  moreover have "bytes_increment [0x61, 0xff] = Some [0x62]"
    using bytes_increment_last_non_ff [of "[0x61, 0xff]", THEN conjunct2, rule_format, of 0]
    by (simp add: nth_Cons')
  ultimately show ?thesis
    using bytes_increment_last_non_ff [of "[0xff, 0xff]"] by simp
qed

text \<open>
  Claim C5, at a byte string of \<open>2 ^ 31 + 1\<close> bytes: the byte \<open>a\<close> followed by
  \<open>2 ^ 31\<close> bytes \<open>0xff\<close>.  Its last byte that is not \<open>0xff\<close> is the first one, and not
  every byte of it is \<open>0xff\<close>; the length minus one does not fit the C \<open>int\<close> that holds
  the index, the index starts negative, the loop is not entered, and the result is
  \<open>None\<close>.  With one byte \<open>0xff\<close> less the index fits and the result is \<open>b"b"\<close>.
\<close>

theorem bytes_increment_index_wraps:
  "bytes_increment (0x61 # replicate (2 ^ 31) 0xff) = None \<and>
   bytes_increment (0x61 # replicate (2 ^ 31 - 1) 0xff) = Some [0x62]"
proof
  show "bytes_increment (0x61 # replicate (2 ^ 31) 0xff) = None"
    by (simp add: bytes_increment_def bytes_increment_loop.simps)
  let ?k = "0x61 # replicate (2 ^ 31 - 1) 0xff :: bytes"
  have len: "length ?k \<le> 2 ^ 31" by simp
  have "0 < length ?k \<and> ?k ! 0 \<noteq> 0xff \<and> (\<forall>j. 0 < j \<and> j < length ?k \<longrightarrow> ?k ! j = 0xff)"
    by (auto simp: nth_Cons')
  with bytes_increment_last_non_ff [OF len, THEN conjunct2, rule_format, of 0]
  show "bytes_increment ?k = Some [0x62]"
    by simp
qed

section \<open>The bounds derived at construction\<close>

text \<open>
  Claim C6.  An iterator constructed on an open store with a key prefix \<open>P\<close> (the
  namespace of a \<open>PrefixedDB\<close>) and no \<open>prefix\<close> argument has these bounds: \<open>start\<close> is
  \<open>P + start\<close> when a start key was given, with the caller's \<open>include_start\<close>, and \<open>P\<close>
  itself with \<open>include_start\<close> true otherwise; \<open>stop\<close> is \<open>P + stop\<close> when a stop key was
  given, with the caller's \<open>include_stop\<close>, and \<open>bytes_increment(P)\<close> with \<open>include_stop\<close>
  false otherwise.  The construction succeeds whenever the store is open and the
  engine reports no error.
\<close>

theorem Iterator_init_key_prefix_bounds:
  assumes "db_ptr db_obj = Some e" and "engine_status e = StatusOK"
  shows "\<exists>it db'.
           Iterator_init ident db_obj (Some P) reverse start0 stop0 inc_start inc_stop None
             inc_key inc_value snap = Inr (it, db') \<and>
           start it = (case start0 of None \<Rightarrow> Some P | Some s \<Rightarrow> Some (P @ s)) \<and>
           include_start it = (case start0 of None \<Rightarrow> True | Some s \<Rightarrow> inc_start) \<and>
           stop it = (case stop0 of None \<Rightarrow> bytes_increment P | Some t \<Rightarrow> Some (P @ t)) \<and>
           include_stop it = (case stop0 of None \<Rightarrow> False | Some t \<Rightarrow> inc_stop)"
  using assms
  by (simp add: Iterator_init_def NewIterator_def seek_to_start_def seek_to_stop_def
      raise_for_status_def split: option.splits)

theorem Iterator_init_key_prefix_bounds_witness:
  "\<exists>it db'.
     Iterator_init 1 abc_DB (Some [0x61]) False None None False True None True True None
       = Inr (it, db') \<and>
     start it = Some [0x61] \<and> include_start it \<and> stop it = Some [0x62] \<and> \<not> include_stop it"
proof -
  have inc: "bytes_increment [0x61] = Some [0x62]"
    by (simp add: bytes_increment_def bytes_increment_loop.simps [of _ 0])
  have "db_ptr abc_DB = Some abc_engine" and "engine_status abc_engine = StatusOK"
    by (simp_all add: abc_DB_def abc_engine_def)
  from Iterator_init_key_prefix_bounds [OF this, of 1 "[0x61]" False None None False True True True None]
  show ?thesis by (simp add: inc)
qed

text \<open>
  Claim C7.  When a \<open>prefix\<close> argument is given to the construction of an iterator on
  an open store (with a key prefix \<open>P\<close> of a \<open>PrefixedDB\<close>, the prefix is \<open>P + prefix\<close>):
  if a start or a stop key is given too, the construction raises \<open>TypeError\<close>;
  otherwise it succeeds (the engine reporting no error) and the bounds are \<open>start\<close> the
  prefix with \<open>include_start\<close> true and \<open>stop\<close> \<open>bytes_increment\<close> of the prefix with
  \<open>include_stop\<close> false, whatever \<open>include_start\<close> and \<open>include_stop\<close> the caller passed.
\<close>

theorem Iterator_init_prefix_argument:
  assumes "db_ptr db_obj = Some e"
  shows "(start0 \<noteq> None \<or> stop0 \<noteq> None \<longrightarrow>
            Iterator_init ident db_obj key_prefix reverse start0 stop0 inc_start inc_stop
              (Some p) inc_key inc_value snap = Inl TypeError) \<and>
         (start0 = None \<and> stop0 = None \<and> engine_status e = StatusOK \<longrightarrow>
            (\<exists>it db'.
               Iterator_init ident db_obj key_prefix reverse start0 stop0 inc_start inc_stop
                 (Some p) inc_key inc_value snap = Inr (it, db') \<and>
               start it = Some (case key_prefix of None \<Rightarrow> p | Some kp \<Rightarrow> kp @ p) \<and>
               include_start it \<and>
               stop it = bytes_increment (case key_prefix of None \<Rightarrow> p | Some kp \<Rightarrow> kp @ p) \<and>
               \<not> include_stop it))"
  using assms
  by (simp add: Iterator_init_def NewIterator_def seek_to_start_def seek_to_stop_def
      raise_for_status_def split: option.splits)

theorem Iterator_init_prefix_argument_witness:
  "Iterator_init 1 abc_DB (Some [0x61]) False (Some [0x62]) None True False (Some [0xff])
     True True None = Inl TypeError \<and>
   (\<exists>it db'.
      Iterator_init 1 abc_DB (Some [0x61]) True None None False True (Some [0xff])
        True True None = Inr (it, db') \<and>
      start it = Some [0x61, 0xff] \<and> include_start it \<and> stop it = Some [0x62] \<and>
      \<not> include_stop it)"
proof -
  have inc: "bytes_increment [0x61, 0xff] = Some [0x62]"
    by (simp add: bytes_increment_def bytes_increment_loop.simps [of _ 1]
        bytes_increment_loop.simps [of _ 0])
  have open_db: "db_ptr abc_DB = Some abc_engine"
    by (simp add: abc_DB_def)
  have ok: "engine_status abc_engine = StatusOK"
    by (simp add: abc_engine_def)
  show ?thesis
    using Iterator_init_prefix_argument [OF open_db, of "Some [0x62]" None 1 "Some [0x61]" False True False "[0xff]" True True None]
      Iterator_init_prefix_argument [OF open_db, of None None 1 "Some [0x61]" True False True "[0xff]" True True None]
    by (simp add: inc ok)
qed

section \<open>The cursor over an ordered store\<close>

subsection \<open>Total orders and ordered entries\<close>

lemma total_order_eq: "total_order cmp \<Longrightarrow> (cmp a b = 0) = (a = b)"
  by (simp add: total_order_def)

lemma total_order_flip: "total_order cmp \<Longrightarrow> (cmp a b < 0) = (cmp b a > 0)"
  by (simp add: total_order_def)

lemma total_order_trans: "total_order cmp \<Longrightarrow> cmp a b < 0 \<Longrightarrow> cmp b c < 0 \<Longrightarrow> cmp a c < 0"
  unfolding total_order_def by blast

lemma total_order_le_less:
  assumes "total_order cmp" and "cmp a b \<le> 0" and "cmp b c < 0"
  shows "cmp a c < 0"
proof (cases "cmp a b = 0")
  case True
  then have "a = b" using assms(1) by (simp add: total_order_eq)
  then show ?thesis using assms(3) by simp
next
  case False
  then have "cmp a b < 0" using assms(2) by simp
  then show ?thesis using assms(1,3) by (blast intro: total_order_trans)
qed

lemma total_order_less_le:
  assumes "total_order cmp" and "cmp a b < 0" and "cmp b c \<le> 0"
  shows "cmp a c < 0"
proof (cases "cmp b c = 0")
  case True
  then have "b = c" using assms(1) by (simp add: total_order_eq)
  then show ?thesis using assms(2) by simp
next
  case False
  then have "cmp b c < 0" using assms(3) by simp
  with assms(1,2) show ?thesis by (blast intro: total_order_trans)
qed

lemma total_order_ge_flip:
  "total_order cmp \<Longrightarrow> (cmp a b \<ge> 0) = (cmp b a \<le> 0)"
  using total_order_flip [of cmp a b] by auto

lemma total_order_le_le:
  assumes "total_order cmp" and "cmp a b \<le> 0" and "cmp b c \<le> 0"
  shows "cmp a c \<le> 0"
proof (cases "cmp a b = 0")
  case True
  then have "a = b" using assms(1) by (simp add: total_order_eq)
  with assms(3) show ?thesis by simp
next
  case False
  with assms(2) have "cmp a b < 0" by simp
  with assms(1,3) have "cmp a c < 0" by (blast intro: total_order_less_le)
  then show ?thesis by simp
qed

lemma ascending_entries_nth:
  "sorted_wrt (\<lambda>a b. cmp (fst a) (fst b) < 0) es \<Longrightarrow> i < j \<Longrightarrow> j < length es \<Longrightarrow>
   cmp (fst (es ! i)) (fst (es ! j)) < 0"
  by (simp add: sorted_wrt_iff_nth_less)

text \<open>The bytewise order is a total order.\<close>

lemma bytewise_compare_eq: "(bytewise_compare a b = 0) = (a = b)"
  by (induction a b rule: bytewise_compare.induct) auto

lemma bytewise_compare_flip: "(bytewise_compare a b < 0) = (bytewise_compare b a > 0)"
  by (induction a b rule: bytewise_compare.induct) auto

lemma bytewise_compare_trans:
  "bytewise_compare a b < 0 \<Longrightarrow> bytewise_compare b c < 0 \<Longrightarrow> bytewise_compare a c < 0"
proof (induction a b arbitrary: c rule: bytewise_compare.induct)
  case 1
  then show ?case by simp
next
  case (2 y ys)
  then show ?case by (cases c) (auto split: if_splits)
next
  case (3 x xs)
  then show ?case by simp
next
  case (4 x xs y ys)
  show ?case
  proof (cases c)
    case Nil
    with "4.prems" show ?thesis by simp
  next
    case (Cons z zs)
    show ?thesis
    proof (cases "x < y")
      case True
      with "4.prems" Cons show ?thesis by (auto split: if_splits)
    next
      case False
      with "4.prems"(1) have xy: "x = y" and rest: "bytewise_compare xs ys < 0"
        by (auto split: if_splits)
      show ?thesis
      proof (cases "y < z")
        case True
        with xy Cons show ?thesis by simp
      next
        case False
        with "4.prems"(2) Cons have yz: "y = z" and rest': "bytewise_compare ys zs < 0"
          by (auto split: if_splits)
        from "4.IH" [OF _ _ rest rest'] xy yz Cons show ?thesis by simp
      qed
    qed
  qed
qed

lemma total_order_bytewise: "total_order bytewise_compare"
  unfolding total_order_def
  using bytewise_compare_eq bytewise_compare_flip bytewise_compare_trans by blast

subsection \<open>Leading runs\<close>

lemma takeWhile_before: "i < length (takeWhile P xs) \<Longrightarrow> P (xs ! i)"
  by (metis nth_mem set_takeWhileD takeWhile_nth)

lemma length_takeWhile_eqI:
  assumes "j \<le> length xs" and "\<And>i. i < j \<Longrightarrow> P (xs ! i)" and "j < length xs \<Longrightarrow> \<not> P (xs ! j)"
  shows "length (takeWhile P xs) = j"
proof -
  have "takeWhile P xs = take j xs"
    using assms(2,3) by (intro takeWhile_eq_take_P_nth) auto
  then show ?thesis using assms(1) by simp
qed

subsection \<open>The cursor\<close>

lemma cursor_moves [simp]:
  "entries (Seek c t) = entries c" "ordering (Seek c t) = ordering c"
  "cursor_status (Seek c t) = cursor_status c"
  "entries (Next c) = entries c" "ordering (Next c) = ordering c"
  "cursor_status (Next c) = cursor_status c"
  "entries (Prev c) = entries c" "ordering (Prev c) = ordering c"
  "cursor_status (Prev c) = cursor_status c"
  "entries (SeekToFirst c) = entries c" "ordering (SeekToFirst c) = ordering c"
  "cursor_status (SeekToFirst c) = cursor_status c"
  "entries (SeekToLast c) = entries c" "ordering (SeekToLast c) = ordering c"
  "cursor_status (SeekToLast c) = cursor_status c"
  by (simp_all add: Seek_def Next_def Prev_def SeekToFirst_def SeekToLast_def Let_def)

lemma cursor_at [simp]:
  "Valid (c\<lparr>position := p\<rparr>) = (case p of None \<Rightarrow> False | Some i \<Rightarrow> i < length (entries c))"
  "cursor_entry (c\<lparr>position := p\<rparr>) =
     (case p of None \<Rightarrow> None | Some i \<Rightarrow> if i < length (entries c) then Some (entries c ! i) else None)"
  "cursor_key (c\<lparr>position := p\<rparr>) =
     (case p of None \<Rightarrow> None
      | Some i \<Rightarrow> if i < length (entries c) then Some (fst (entries c ! i)) else None)"
  by (simp_all add: Valid_def cursor_entry_def cursor_key_def split: option.splits)

lemma cursor_steps:
  "Seek c t = c\<lparr>position :=
     (if length (takeWhile (\<lambda>e. ordering c (fst e) t < 0) (entries c)) < length (entries c)
      then Some (length (takeWhile (\<lambda>e. ordering c (fst e) t < 0) (entries c))) else None)\<rparr>"
  "Next (c\<lparr>position := Some i\<rparr>) =
     c\<lparr>position := (if Suc i < length (entries c) then Some (Suc i) else None)\<rparr>"
  "Prev (c\<lparr>position := Some i\<rparr>) = c\<lparr>position := (if i = 0 then None else Some (i - 1))\<rparr>"
  "Next (c\<lparr>position := None\<rparr>) = c\<lparr>position := None\<rparr>"
  "Prev (c\<lparr>position := None\<rparr>) = c\<lparr>position := None\<rparr>"
  "SeekToFirst c = c\<lparr>position := (if entries c = [] then None else Some 0)\<rparr>"
  "SeekToLast c = c\<lparr>position := (if entries c = [] then None else Some (length (entries c) - 1))\<rparr>"
  by (simp_all add: Seek_def Next_def Prev_def SeekToFirst_def SeekToLast_def Let_def)

lemma position_at_start_lands:
  assumes tot: "total_order (comparator self)"
    and ord: "ordering c = comparator self"
    and srt: "sorted_wrt (\<lambda>a b. comparator self (fst a) (fst b) < 0) (entries c)"
  shows "position_at_start self c = c\<lparr>position := first_from_start self (entries c)\<rparr>"
proof (cases "start self")
  case None
  then show ?thesis
    by (cases "entries c")
      (simp_all add: position_at_start_def first_from_start_def within_start_def cursor_steps)
next
  case (Some s)
  let ?cmp = "comparator self"
  let ?es = "entries c"
  let ?P = "\<lambda>e. ?cmp (fst e) s < 0"
  let ?j = "length (takeWhile ?P ?es)"
  have jle: "?j \<le> length ?es" by (rule length_takeWhile_le)
  have before: "\<And>i. i < ?j \<Longrightarrow> ?cmp (fst (?es ! i)) s < 0"
    by (rule takeWhile_before)
  have at: "?j < length ?es \<Longrightarrow> \<not> ?cmp (fst (?es ! ?j)) s < 0"
    by (rule nth_length_takeWhile)
  show ?thesis
  proof (cases "include_start self")
    case True
    have Qi: "\<And>e. within_start self (fst e) = (\<not> ?cmp (fst e) s < 0)"
      using Some True by (auto simp: within_start_def)
    have "length (takeWhile (\<lambda>e. \<not> within_start self (fst e)) ?es) = ?j"
      by (simp add: Qi)
    then show ?thesis
      using Some True ord
      by (simp add: position_at_start_def first_from_start_def cursor_steps Let_def)
  next
    case False
    let ?Q = "\<lambda>e. \<not> within_start self (fst e)"
    have Q: "\<And>e. ?Q e = (?cmp (fst e) s \<le> 0)"
      using Some False by (auto simp: within_start_def)
    show ?thesis
    proof (cases "?j < length ?es")
      case inside: True
      show ?thesis
      proof (cases "?cmp (fst (?es ! ?j)) s = 0")
        case True
        then have key: "fst (?es ! ?j) = s" using tot by (simp add: total_order_eq)
        have "length (takeWhile ?Q ?es) = Suc ?j"
        proof (rule length_takeWhile_eqI)
          show "Suc ?j \<le> length ?es" using inside by simp
        next
          fix i assume "i < Suc ?j"
          then show "?Q (?es ! i)"
            using before [of i] True by (cases "i = ?j") (auto simp: Q)
        next
          assume "Suc ?j < length ?es"
          then have "?cmp (fst (?es ! ?j)) (fst (?es ! Suc ?j)) < 0"
            using srt by (intro ascending_entries_nth) simp_all
          then have "?cmp (fst (?es ! Suc ?j)) s > 0"
            using key tot by (simp add: total_order_flip)
          then show "\<not> ?Q (?es ! Suc ?j)" by (simp add: Q)
        qed
        then show ?thesis
          using Some False ord inside True
          by (simp add: position_at_start_def first_from_start_def cursor_steps Let_def)
      next
        case neq: False
        have "length (takeWhile ?Q ?es) = ?j"
        proof (rule length_takeWhile_eqI)
          show "?j \<le> length ?es" by (rule jle)
        next
          fix i assume "i < ?j"
          then show "?Q (?es ! i)" using before [of i] by (simp add: Q)
        next
          assume "?j < length ?es"
          then show "\<not> ?Q (?es ! ?j)" using at neq by (simp add: Q)
        qed
        then show ?thesis
          using Some False ord inside neq
          by (simp add: position_at_start_def first_from_start_def cursor_steps Let_def)
      qed
    next
      case outside: False
      then have all: "?j = length ?es" using jle by simp
      have "length (takeWhile ?Q ?es) = length ?es"
      proof (rule length_takeWhile_eqI)
        fix i assume "i < length ?es"
        then show "?Q (?es ! i)" using before [of i] all by (simp add: Q)
      qed simp_all
      then show ?thesis
        using Some False ord outside
        by (simp add: position_at_start_def first_from_start_def cursor_steps Let_def)
    qed
  qed
qed


lemma reposition_at_stop_lands:
  assumes tot: "total_order (comparator self)"
    and ord: "ordering c = comparator self"
    and srt: "sorted_wrt (\<lambda>a b. comparator self (fst a) (fst b) < 0) (entries c)"
  shows "reposition_at_stop self c = c\<lparr>position := last_before_stop self (entries c)\<rparr>"
proof (cases "stop self")
  case None
  then show ?thesis
    by (cases "entries c")
      (simp_all add: reposition_at_stop_def last_before_stop_def within_stop_def cursor_steps
        takeWhile_eq_all_conv [THEN iffD2])
next
  case (Some t)
  let ?cmp = "comparator self"
  let ?es = "entries c"
  let ?P = "\<lambda>e. ?cmp (fst e) t < 0"
  let ?j = "length (takeWhile ?P ?es)"
  let ?R = "\<lambda>e. within_stop self (fst e)"
  have jle: "?j \<le> length ?es" by (rule length_takeWhile_le)
  have before: "\<And>i. i < ?j \<Longrightarrow> ?cmp (fst (?es ! i)) t < 0"
    by (rule takeWhile_before)
  have at: "?j < length ?es \<Longrightarrow> \<not> ?cmp (fst (?es ! ?j)) t < 0"
    by (rule nth_length_takeWhile)
  show ?thesis
  proof (cases "include_stop self")
    case False
    have R: "\<And>e. within_stop self (fst e) = (?cmp (fst e) t < 0)"
      using Some False by (auto simp: within_stop_def)
    have m: "length (takeWhile ?R ?es) = ?j"
      by (simp add: R)
    show ?thesis
    proof (cases "?j < length ?es")
      case inside: True
      show ?thesis
      proof (cases "?j = 0")
        case True
        then show ?thesis
          using Some False ord inside m
          by (simp add: reposition_at_stop_def last_before_stop_def cursor_steps Let_def)
      next
        case pos: False
        then have "?cmp (fst (?es ! (?j - 1))) t < 0" using before [of "?j - 1"] by simp
        then show ?thesis
          using Some False ord inside m pos
          by (simp add: reposition_at_stop_def last_before_stop_def cursor_steps Let_def)
      qed
    next
      case outside: False
      then have all: "?j = length ?es" using jle by simp
      show ?thesis
      proof (cases "?es = []")
        case True
        then show ?thesis
          using Some False ord
          by (simp add: reposition_at_stop_def last_before_stop_def cursor_steps Let_def)
      next
        case nonempty: False
        then have "?cmp (fst (?es ! (length ?es - 1))) t < 0"
          using before [of "length ?es - 1"] all by simp
        then show ?thesis
          using Some False ord outside m all nonempty
          by (simp add: reposition_at_stop_def last_before_stop_def cursor_steps Let_def)
      qed
    qed
  next
    case True
    have R: "\<And>e. within_stop self (fst e) = (?cmp (fst e) t \<le> 0)"
      using Some True by (auto simp: within_stop_def)
    show ?thesis
    proof (cases "?j < length ?es")
      case inside: True
      show ?thesis
      proof (cases "?cmp (fst (?es ! ?j)) t = 0")
        case eq: True
        then have key: "fst (?es ! ?j) = t" using tot by (simp add: total_order_eq)
        have m: "length (takeWhile ?R ?es) = Suc ?j"
        proof (rule length_takeWhile_eqI)
          show "Suc ?j \<le> length ?es" using inside by simp
        next
          fix i assume "i < Suc ?j"
          then show "?R (?es ! i)"
            using before [of i] eq by (cases "i = ?j") (auto simp: R)
        next
          assume "Suc ?j < length ?es"
          then have "?cmp (fst (?es ! ?j)) (fst (?es ! Suc ?j)) < 0"
            using srt by (intro ascending_entries_nth) simp_all
          then have "?cmp (fst (?es ! Suc ?j)) t > 0"
            using key tot by (simp add: total_order_flip)
          then show "\<not> ?R (?es ! Suc ?j)" by (simp add: R)
        qed
        show ?thesis
          using Some True ord inside eq m
          by (simp add: reposition_at_stop_def last_before_stop_def cursor_steps Let_def)
      next
        case neq: False
        with at inside have gt: "?cmp (fst (?es ! ?j)) t > 0" by simp
        have m: "length (takeWhile ?R ?es) = ?j"
        proof (rule length_takeWhile_eqI)
          show "?j \<le> length ?es" by (rule jle)
        next
          fix i assume "i < ?j"
          then show "?R (?es ! i)" using before [of i] by (simp add: R)
        next
          show "\<not> ?R (?es ! ?j)" using gt by (simp add: R)
        qed
        show ?thesis
        proof (cases "?j = 0")
          case True
          then show ?thesis
            using Some \<open>include_stop self\<close> ord inside gt m
            by (simp add: reposition_at_stop_def last_before_stop_def cursor_steps Let_def)
        next
          case pos: False
          then have "?cmp (fst (?es ! (?j - 1))) t < 0" using before [of "?j - 1"] by simp
          then show ?thesis
            using Some \<open>include_stop self\<close> ord inside gt m pos
            by (simp add: reposition_at_stop_def last_before_stop_def cursor_steps Let_def)
        qed
      qed
    next
      case outside: False
      then have all: "?j = length ?es" using jle by simp
      have m: "length (takeWhile ?R ?es) = length ?es"
      proof (rule length_takeWhile_eqI)
        fix i assume "i < length ?es"
        then show "?R (?es ! i)" using before [of i] all by (simp add: R)
      qed simp_all
      show ?thesis
      proof (cases "?es = []")
        case True
        then show ?thesis
          using Some \<open>include_stop self\<close> ord
          by (simp add: reposition_at_stop_def last_before_stop_def cursor_steps Let_def)
      next
        case nonempty: False
        then have "?cmp (fst (?es ! (length ?es - 1))) t < 0"
          using before [of "length ?es - 1"] all by simp
        then show ?thesis
          using Some \<open>include_stop self\<close> ord outside m all nonempty
          by (simp add: reposition_at_stop_def last_before_stop_def cursor_steps Let_def)
      qed
    qed
  qed
qed

section \<open>Explicit seek\<close>

text \<open>
  The target that \<open>seek\<close> moves to: clamped into the window from \<open>start\<close> to \<open>stop\<close>,
  unless the start key is above the stop key and the target below the start key, where
  it is the stop key.
\<close>

lemma seek_target_clamps:
  "seek_target self target =
     (case (start self, stop self) of
        (Some s, Some t) \<Rightarrow>
          if comparator self target s < 0 \<and> comparator self s t > 0 then t
          else clamp_into_window (comparator self) (start self) (stop self) target
      | _ \<Rightarrow> clamp_into_window (comparator self) (start self) (stop self) target)"
  by (auto simp: seek_target_def clamp_into_window_def split: option.splits)

lemma seek_target_not_above_stop:
  assumes "total_order (comparator self)" and "stop self = Some t"
  shows "comparator self (seek_target self target) t \<le> 0"
proof -
  have "comparator self t t = 0"
    using assms(1) by (simp add: total_order_eq)
  then show ?thesis
    using assms(2) by (simp add: seek_target_def Let_def not_less split: option.splits)
qed

lemma seek_target_not_below_start:
  assumes tot: "total_order (comparator self)" and s: "start self = Some s"
    and window: "\<And>t. stop self = Some t \<Longrightarrow> comparator self s t \<le> 0"
  shows "comparator self s (seek_target self target) \<le> 0"
proof -
  have "comparator self s s = 0"
    using tot by (simp add: total_order_eq)
  then have refl: "comparator self s s \<le> 0"
    by simp
  have ge: "\<not> comparator self target s < 0 \<Longrightarrow> comparator self s target \<le> 0"
    using total_order_flip [OF tot, of s target] total_order_flip [OF tot, of target s]
    by (cases "comparator self s target \<le> 0") auto
  show ?thesis
  proof (cases "stop self")
    case None
    with s refl ge show ?thesis by (auto simp: seek_target_def)
  next
    case (Some t)
    with s refl ge window [OF Some] show ?thesis by (auto simp: seek_target_def)
  qed
qed

text \<open>
  Where the engine's \<open>Seek\<close> lands over ordered entries: on the entry with the least key
  at or after the target, and nowhere when every key is before the target.
\<close>

lemma Seek_lands:
  assumes "ordered_entries self c"
  shows "case cursor_key (Seek c t) of
           None \<Rightarrow> \<not> Valid (Seek c t) \<and> (\<forall>e \<in> set (entries c). comparator self (fst e) t < 0)
         | Some k \<Rightarrow>
             Valid (Seek c t) \<and> k \<in> fst ` set (entries c) \<and> comparator self k t \<ge> 0 \<and>
             (\<forall>e \<in> set (entries c). comparator self (fst e) t \<ge> 0 \<longrightarrow>
                comparator self k (fst e) \<le> 0)"
proof -
  from assms have tot: "total_order (comparator self)" and ord: "ordering c = comparator self"
    and srt: "sorted_wrt (\<lambda>a b. comparator self (fst a) (fst b) < 0) (entries c)"
    by (simp_all add: ordered_entries_def)
  let ?P = "\<lambda>e. comparator self (fst e) t < 0"
  let ?n = "length (takeWhile ?P (entries c))"
  have land: "Seek c t = c\<lparr>position := (if ?n < length (entries c) then Some ?n else None)\<rparr>"
    by (simp add: cursor_steps ord)
  show ?thesis
  proof (cases "?n < length (entries c)")
    case False
    then have "takeWhile ?P (entries c) = entries c"
      using length_takeWhile_le [of ?P "entries c"]
      by (metis le_antisym not_less takeWhile_eq_take take_all_iff order_refl)
    then have "\<forall>e \<in> set (entries c). ?P e"
      by (metis set_takeWhileD)
    with False show ?thesis by (simp add: land)
  next
    case True
    have here: "\<not> ?P (entries c ! ?n)"
      using True by (rule nth_length_takeWhile)
    have least: "comparator self (fst (entries c ! ?n)) (fst e) \<le> 0"
      if e: "e \<in> set (entries c)" and after: "comparator self (fst e) t \<ge> 0" for e
    proof -
      from e obtain i where i: "i < length (entries c)" "entries c ! i = e"
        by (auto simp: in_set_conv_nth)
      have "\<not> i < ?n"
      proof
        assume "i < ?n"
        then have "?P (entries c ! i)" by (rule takeWhile_before)
        with i after show False by simp
      qed
      then have "?n = i \<or> ?n < i" by auto
      then show ?thesis
      proof
        assume "?n = i"
        then have "fst (entries c ! ?n) = fst e" using i by simp
        moreover have "comparator self (fst e) (fst e) = 0"
          using tot by (simp add: total_order_eq)
        ultimately show ?thesis by simp
      next
        assume "?n < i"
        then have "comparator self (fst (entries c ! ?n)) (fst (entries c ! i)) < 0"
          using srt i(1) by (intro ascending_entries_nth)
        with i show ?thesis by simp
      qed
    qed
    show ?thesis
      using True here least by (simp add: land not_less)
  qed
qed

lemma cb_iterator_constructed:
  "Iterator_init 1 abc_DB None False (Some [0x63]) (Some [0x62]) True False None True True None =
     Inr (cb_iterator, abc_DB\<lparr>iterators := Some [1]\<rparr>)"
  by (simp add: Iterator_init_def abc_DB_def abc_engine_def cb_iterator_def abc_iterator_def
      NewIterator_def seek_to_start_def seek_to_stop_def raise_for_status_def
      DB_register_iterator_def fun_eq_iff)

text \<open>
  Claim C9, with the two replacements in the order the code makes them.  For every live
  iterator and every target, \<open>seek\<close> rejects no target: the only exception it can raise
  is the engine's own error status, after the state is set.  It replaces a target below
  \<open>start\<close> by \<open>start\<close>, and then the result, when that is above \<open>stop\<close>, by \<open>stop\<close>.  So
  the target it moves to is the target clamped into the window from \<open>start\<close> to \<open>stop\<close>
  (\<open>start\<close> for a target below \<open>start\<close>, \<open>stop\<close> for a target above \<open>stop\<close>, the target
  itself otherwise), except that with \<open>start\<close> above \<open>stop\<close> a target below \<open>start\<close>
  becomes \<open>stop\<close>; under a total order it is never above \<open>stop\<close>, and never below
  \<open>start\<close> unless \<open>start\<close> is above \<open>stop\<close>.  \<open>seek\<close> moves the native cursor to that
  target, which over ordered entries is the entry with the least key at or after it,
  and sets the state to \<open>IN_BETWEEN_ALREADY_POSITIONED\<close> when the cursor is valid there
  and to \<open>AFTER_STOP\<close> otherwise.
\<close>

theorem seek_clamps_and_positions:
  assumes "iter self = Some c"
  shows "seek self target =
           ((if Valid (Seek c (seek_target self target))
             then raise_for_status (cursor_status c) else None),
            self\<lparr>iter := Some (Seek c (seek_target self target)),
                  state := (if Valid (Seek c (seek_target self target))
                            then IN_BETWEEN_ALREADY_POSITIONED else AFTER_STOP)\<rparr>) \<and>
         seek_target self target =
           (case (start self, stop self) of
              (Some s, Some t) \<Rightarrow>
                if comparator self target s < 0 \<and> comparator self s t > 0 then t
                else clamp_into_window (comparator self) (start self) (stop self) target
            | _ \<Rightarrow> clamp_into_window (comparator self) (start self) (stop self) target) \<and>
         (total_order (comparator self) \<longrightarrow>
            (\<forall>t. stop self = Some t \<longrightarrow> comparator self (seek_target self target) t \<le> 0) \<and>
            (\<forall>s. start self = Some s \<and> (\<forall>t. stop self = Some t \<longrightarrow> comparator self s t \<le> 0) \<longrightarrow>
                 comparator self s (seek_target self target) \<le> 0)) \<and>
         (ordered_entries self c \<longrightarrow>
            (case cursor_key (Seek c (seek_target self target)) of
               None \<Rightarrow>
                 \<not> Valid (Seek c (seek_target self target)) \<and>
                 (\<forall>e \<in> set (entries c). comparator self (fst e) (seek_target self target) < 0)
             | Some k \<Rightarrow>
                 Valid (Seek c (seek_target self target)) \<and>
                 k \<in> fst ` set (entries c) \<and>
                 comparator self k (seek_target self target) \<ge> 0 \<and>
                 (\<forall>e \<in> set (entries c). comparator self (fst e) (seek_target self target) \<ge> 0 \<longrightarrow>
                    comparator self k (fst e) \<le> 0)))"
proof (intro conjI impI allI)
  have "cursor_status (Seek c (seek_target self target)) = cursor_status c"
    by simp
  then show "seek self target =
      ((if Valid (Seek c (seek_target self target))
        then raise_for_status (cursor_status c) else None),
       self\<lparr>iter := Some (Seek c (seek_target self target)),
             state := (if Valid (Seek c (seek_target self target))
                       then IN_BETWEEN_ALREADY_POSITIONED else AFTER_STOP)\<rparr>)"
    using assms by (simp add: seek_def Let_def)
next
  show "seek_target self target =
      (case (start self, stop self) of
         (Some s, Some t) \<Rightarrow>
           if comparator self target s < 0 \<and> comparator self s t > 0 then t
           else clamp_into_window (comparator self) (start self) (stop self) target
       | _ \<Rightarrow> clamp_into_window (comparator self) (start self) (stop self) target)"
    by (rule seek_target_clamps)
next
  fix t
  assume "total_order (comparator self)" and "stop self = Some t"
  then show "comparator self (seek_target self target) t \<le> 0"
    by (rule seek_target_not_above_stop)
next
  fix s
  assume tot: "total_order (comparator self)"
    and s: "start self = Some s \<and> (\<forall>t. stop self = Some t \<longrightarrow> comparator self s t \<le> 0)"
  then show "comparator self s (seek_target self target) \<le> 0"
    by (intro seek_target_not_below_start) auto
next
  assume "ordered_entries self c"
  then show "case cursor_key (Seek c (seek_target self target)) of
      None \<Rightarrow>
        \<not> Valid (Seek c (seek_target self target)) \<and>
        (\<forall>e \<in> set (entries c). comparator self (fst e) (seek_target self target) < 0)
    | Some k \<Rightarrow>
        Valid (Seek c (seek_target self target)) \<and>
        k \<in> fst ` set (entries c) \<and>
        comparator self k (seek_target self target) \<ge> 0 \<and>
        (\<forall>e \<in> set (entries c). comparator self (fst e) (seek_target self target) \<ge> 0 \<longrightarrow>
           comparator self k (fst e) \<le> 0)"
    by (rule Seek_lands)
qed

theorem seek_clamps_and_positions_witness:
  "seek bc_iterator [0x61] =
     (None, bc_iterator\<lparr>iter := Some ((NewIterator abc_engine None)\<lparr>position := Some 1\<rparr>),
                        state := IN_BETWEEN_ALREADY_POSITIONED\<rparr>) \<and>
   seek bc_iterator [0x64] =
     (None, bc_iterator\<lparr>iter := Some ((NewIterator abc_engine None)\<lparr>position := Some 2\<rparr>),
                        state := IN_BETWEEN_ALREADY_POSITIONED\<rparr>) \<and>
   seek_target bc_iterator [0x61] = [0x62] \<and>
   seek_target bc_iterator [0x64] = [0x63] \<and>
   seek_target bc_iterator [0x62, 0x00] = [0x62, 0x00] \<and>
   bytewise_compare (seek_target bc_iterator [0x64]) [0x63] \<le> 0 \<and>
   bytewise_compare [0x62] (seek_target bc_iterator [0x61]) \<le> 0 \<and>
   Valid (Seek (NewIterator abc_engine None) (seek_target bc_iterator [0x61]))"
proof -
  let ?c = "NewIterator abc_engine None"
  have live: "iter bc_iterator = Some ?c"
    by (simp add: bc_iterator_def abc_iterator_def)
  have bounds: "start bc_iterator = Some [0x62]" "stop bc_iterator = Some [0x63]"
    "comparator bc_iterator = bytewise_compare"
    by (simp_all add: bc_iterator_def abc_iterator_def)
  have tot: "total_order (comparator bc_iterator)"
    by (simp add: bounds total_order_bytewise)
  have oe: "ordered_entries bc_iterator ?c"
    by (simp add: ordered_entries_def bounds total_order_bytewise NewIterator_def abc_engine_def
        fun_eq_iff)
  have st1: "seek_target bc_iterator [0x61] = [0x62]"
    using seek_clamps_and_positions [OF live, of "[0x61]", THEN conjunct2, THEN conjunct1]
    by (simp add: bounds clamp_into_window_def)
  have st2: "seek_target bc_iterator [0x64] = [0x63]"
    using seek_clamps_and_positions [OF live, of "[0x64]", THEN conjunct2, THEN conjunct1]
    by (simp add: bounds clamp_into_window_def)
  have st3: "seek_target bc_iterator [0x62, 0x00] = [0x62, 0x00]"
    using seek_clamps_and_positions [OF live, of "[0x62, 0x00]", THEN conjunct2, THEN conjunct1]
    by (simp add: bounds clamp_into_window_def)
  have s1: "Seek ?c [0x62] = ?c\<lparr>position := Some 1\<rparr>"
    and s2: "Seek ?c [0x63] = ?c\<lparr>position := Some 2\<rparr>"
    by (simp_all add: Seek_def NewIterator_def abc_engine_def)
  have v: "length (entries ?c) = 3"
    by (simp add: NewIterator_def abc_engine_def)
  have ok: "raise_for_status (cursor_status ?c) = None"
    by (simp add: raise_for_status_def NewIterator_def abc_engine_def)
  have inside: "bytewise_compare (seek_target bc_iterator [0x64]) [0x63] \<le> 0"
    "bytewise_compare [0x62] (seek_target bc_iterator [0x61]) \<le> 0"
    using seek_clamps_and_positions [OF live, of "[0x64]", THEN conjunct2, THEN conjunct2,
        THEN conjunct1, rule_format, OF tot, THEN conjunct1, rule_format, OF bounds(2)]
      seek_clamps_and_positions [OF live, of "[0x61]", THEN conjunct2, THEN conjunct2,
        THEN conjunct1, rule_format, OF tot, THEN conjunct2, rule_format, of "[0x62]"]
    by (simp_all add: bounds)
  have key: "cursor_key (Seek ?c (seek_target bc_iterator [0x61])) = Some [0x62]"
    by (simp only: st1 s1)
      (simp add: NewIterator_def abc_engine_def cursor_key_def cursor_entry_def)
  have lands: "Valid (Seek ?c (seek_target bc_iterator [0x61]))"
    using seek_clamps_and_positions [OF live, of "[0x61]", THEN conjunct2, THEN conjunct2,
        THEN conjunct2, rule_format, OF oe]
    by (simp add: key)
  show ?thesis
    using seek_clamps_and_positions [OF live, of "[0x61]", THEN conjunct1]
      seek_clamps_and_positions [OF live, of "[0x64]", THEN conjunct1]
      inside lands
    by (simp add: st1 st2 st3 s1 s2 v ok)
qed

text \<open>
  Claim C9 as stated fails where the start key is above the stop key.  Over the entries
  \<open>a\<close>, \<open>b\<close>, \<open>c\<close> with \<open>start = c\<close> and \<open>stop = b\<close>, the target \<open>a\<close> is below \<open>start\<close>;
  \<open>seek(a)\<close> replaces it by \<open>stop\<close>, not by \<open>start\<close>, and moves the cursor to the entry
  \<open>b\<close>, not to the entry \<open>c\<close>.
\<close>

theorem seek_below_inverted_window_counterexample:
  "start cb_iterator = Some [0x63] \<and>
   stop cb_iterator = Some [0x62] \<and>
   comparator cb_iterator [0x61] [0x63] < 0 \<and>
   clamp_into_window (comparator cb_iterator) (start cb_iterator) (stop cb_iterator) [0x61] =
     [0x63] \<and>
   seek_target cb_iterator [0x61] = [0x62] \<and>
   seek cb_iterator [0x61] =
     (None, cb_iterator\<lparr>iter := Some ((NewIterator abc_engine None)\<lparr>position := Some 1\<rparr>),
                         state := IN_BETWEEN_ALREADY_POSITIONED\<rparr>) \<and>
   cursor_key ((NewIterator abc_engine None)\<lparr>position := Some 1\<rparr>) = Some [0x62]"
  by (simp add: cb_iterator_def abc_iterator_def clamp_into_window_def seek_target_def seek_def
      Seek_def Valid_def cursor_key_def cursor_entry_def NewIterator_def abc_engine_def
      raise_for_status_def)

subsection \<open>One step of the iterator\<close>

lemma moved_simps [simp]:
  "iter (moved self c p st) = Some (c\<lparr>position := p\<rparr>)"
  "state (moved self c p st) = st"
  "direction (moved self c p st) = direction self"
  "comparator (moved self c p st) = comparator self"
  "start (moved self c p st) = start self"
  "stop (moved self c p st) = stop self"
  "include_start (moved self c p st) = include_start self"
  "include_stop (moved self c p st) = include_stop self"
  "include_key (moved self c p st) = include_key self"
  "include_value (moved self c p st) = include_value self"
  "skip_key_bytes (moved self c p st) = skip_key_bytes self"
  by (simp_all add: moved_def)

lemma moved_moved [simp]:
  "moved (moved self c p st) c' p' st' = moved self c' p' st'"
  by (simp add: moved_def)

lemma moved_bounds [simp]:
  "within_start (moved self c p st) k = within_start self k"
  "within_stop (moved self c p st) k = within_stop self k"
  "item_of (moved self c p st) e = item_of self e"
  "sliceable (moved self c p st) k = sliceable self k"
  "item_at (moved self c p st) e = item_at self e"
  by (simp_all add: within_start_def within_stop_def item_of_def sliceable_def item_at_def
      split: option.splits)

lemma moved_landings [simp]:
  "first_from_start (moved self c p st) es = first_from_start self es"
  "last_before_stop (moved self c p st) es = last_before_stop self es"
  by (simp_all add: first_from_start_def last_before_stop_def)

lemma moved_updates [simp]:
  "(moved self c p st)\<lparr>state := st'\<rparr> = moved self c p st'"
  "(moved self c p st)\<lparr>iter := Some (c'\<lparr>position := p'\<rparr>)\<rparr> = moved self c' p' st"
  "(moved self c p st)\<lparr>iter := Some (c'\<lparr>position := p'\<rparr>), state := st'\<rparr> = moved self c' p' st'"
  by (simp_all add: moved_def)

lemma moved_here:
  "iter self = Some c \<Longrightarrow> moved self c (position c) (state self) = self"
  by (simp add: moved_def)

lemma outcome_of_simps [simp]:
  "outcome_of (Inr out) = Return out"
  "outcome_of (Inl err) = Raise err"
  by (simp_all add: outcome_of_def)

lemma current_item:
  "cursor_entry c = Some e \<Longrightarrow> current self c = item_at self e"
  by (cases e) (auto simp: current_def item_at_def item_of_def sliceable_def key_from_def)

lemma item_at_sliceable:
  "sliceable self (fst e) \<Longrightarrow> item_at self e = Inr (item_of self e)"
  by (simp add: item_at_def)

lemma item_at_nth:
  "\<forall>e \<in> set es. sliceable self (fst e) \<Longrightarrow> i < length es \<Longrightarrow>
   item_at self (es ! i) = Inr (item_of self (es ! i))"
  by (simp add: item_at_sliceable)

lemma real_next_check_at:
  assumes "cursor_status c = StatusOK" and "i < length (entries c)"
  shows "real_next_check (moved self c (Some i) IN_BETWEEN) (c\<lparr>position := Some i\<rparr>) =
           (if within_stop self (fst (entries c ! i))
            then (outcome_of (item_at self (entries c ! i)), moved self c (Some i) IN_BETWEEN)
            else (StopIteration, moved self c (Some i) AFTER_STOP))"
proof -
  have cur: "current (moved self c (Some i) IN_BETWEEN) (c\<lparr>position := Some i\<rparr>) =
      item_at self (entries c ! i)"
    using assms(2) by (simp add: current_item)
  show ?thesis
    using assms
    by (simp add: real_next_check_def raise_for_status_def within_stop_def cur outcome_of_def
        split: option.splits sum.splits)
qed

lemma real_next_IN_BETWEEN:
  assumes "cursor_status c = StatusOK" and "p < length (entries c)"
  shows "real_next (moved self c (Some p) IN_BETWEEN) =
           (if Suc p < length (entries c) then
              (if within_stop self (fst (entries c ! Suc p))
               then (outcome_of (item_at self (entries c ! Suc p)),
                     moved self c (Some (Suc p)) IN_BETWEEN)
               else (StopIteration, moved self c (Some (Suc p)) AFTER_STOP))
            else (StopIteration, moved self c None AFTER_STOP))"
proof -
  have pos: "real_next_position (moved self c (Some p) IN_BETWEEN) (c\<lparr>position := Some p\<rparr>) =
      (if Suc p < length (entries c)
       then Inr (moved self c (Some (Suc p)) IN_BETWEEN, c\<lparr>position := Some (Suc p)\<rparr>)
       else Inl (StopIteration, moved self c None AFTER_STOP))"
    using assms by (simp add: real_next_position_def cursor_steps Let_def)
  show ?thesis
    using assms by (simp add: real_next_def pos real_next_check_at)
qed

lemma real_next_BEFORE_START:
  assumes "total_order (comparator self)" and "ordering c = comparator self"
    and "sorted_wrt (\<lambda>a b. comparator self (fst a) (fst b) < 0) (entries c)"
    and "cursor_status c = StatusOK"
  shows "real_next (moved self c p BEFORE_START) =
           (case first_from_start self (entries c) of
              None \<Rightarrow> (StopIteration, moved self c None BEFORE_START)
            | Some j \<Rightarrow>
                if within_stop self (fst (entries c ! j))
                then (outcome_of (item_at self (entries c ! j)), moved self c (Some j) IN_BETWEEN)
                else (StopIteration, moved self c (Some j) AFTER_STOP))"
proof -
  have land: "position_at_start (moved self c p BEFORE_START) (c\<lparr>position := p\<rparr>) =
      c\<lparr>position := first_from_start self (entries c)\<rparr>"
    using position_at_start_lands [of "moved self c p BEFORE_START" "c\<lparr>position := p\<rparr>"] assms
    by simp
  have inside: "\<And>j. first_from_start self (entries c) = Some j \<Longrightarrow> j < length (entries c)"
    by (simp add: first_from_start_def Let_def split: if_splits)
  show ?thesis
  proof (cases "first_from_start self (entries c)")
    case None
    then show ?thesis
      by (simp add: real_next_def real_next_position_def land)
  next
    case (Some j)
    have ne: "0 < length (entries c)" using inside [OF Some] by (cases "entries c") simp_all
    show ?thesis
      using assms(4) inside [OF Some] Some ne
      by (simp add: real_next_def real_next_position_def land real_next_check_at)
  qed
qed

lemma real_next_AFTER_STOP:
  "real_next (moved self c p AFTER_STOP) = (StopIteration, moved self c p AFTER_STOP)"
  by (simp add: real_next_def real_next_position_def)

lemma real_prev_yield_at:
  assumes "cursor_status c = StatusOK" and "q < length (entries c)"
  shows "real_prev_yield (moved self c (Some q) st) (c\<lparr>position := Some q\<rparr>) =
           (case item_at self (entries c ! q) of
              Inl err \<Rightarrow> (Raise err, moved self c (Some q) st)
            | Inr out \<Rightarrow>
                (Return out,
                 moved self c (if q = 0 then None else Some (q - 1))
                   (if q \<noteq> 0 \<and> within_start self (fst (entries c ! (q - 1)))
                    then IN_BETWEEN else BEFORE_START)))"
proof -
  have cur: "current (moved self c (Some q) st) (c\<lparr>position := Some q\<rparr>) =
      item_at self (entries c ! q)"
    using assms(2) by (simp add: current_item)
  show ?thesis
  proof (cases "item_at self (entries c ! q)")
    case (Inl err)
    then show ?thesis
      by (simp add: real_prev_yield_def cur)
  next
    case (Inr out)
    then show ?thesis
      using assms
      by (simp add: real_prev_yield_def raise_for_status_def within_start_def cur cursor_steps
          Let_def split: option.splits)
  qed
qed

lemma real_prev_IN_BETWEEN:
  assumes "cursor_status c = StatusOK" and "q < length (entries c)"
  shows "real_prev (moved self c (Some q) IN_BETWEEN) =
           (case item_at self (entries c ! q) of
              Inl err \<Rightarrow> (Raise err, moved self c (Some q) IN_BETWEEN)
            | Inr out \<Rightarrow>
                (Return out,
                 moved self c (if q = 0 then None else Some (q - 1))
                   (if q \<noteq> 0 \<and> within_start self (fst (entries c ! (q - 1)))
                    then IN_BETWEEN else BEFORE_START)))"
  using assms by (simp add: real_prev_def real_prev_position_def real_prev_yield_at)

lemma real_prev_BEFORE_START:
  "real_prev (moved self c p BEFORE_START) = (StopIteration, moved self c p BEFORE_START)"
  by (simp add: real_prev_def real_prev_position_def)

lemma real_prev_AFTER_STOP:
  assumes "total_order (comparator self)" and "ordering c = comparator self"
    and "sorted_wrt (\<lambda>a b. comparator self (fst a) (fst b) < 0) (entries c)"
    and "cursor_status c = StatusOK"
  shows "real_prev (moved self c p AFTER_STOP) =
           (case last_before_stop self (entries c) of
              None \<Rightarrow> (StopIteration, moved self c None AFTER_STOP)
            | Some q \<Rightarrow>
                if (case start self of
                      None \<Rightarrow> False
                    | Some s \<Rightarrow> comparator self s (fst (entries c ! q)) \<ge> 0)
                then (StopIteration, moved self c (Some q) AFTER_STOP)
                else
                  (case item_at self (entries c ! q) of
                     Inl err \<Rightarrow> (Raise err, moved self c (Some q) AFTER_STOP)
                   | Inr out \<Rightarrow>
                       (Return out,
                        moved self c (if q = 0 then None else Some (q - 1))
                          (if q \<noteq> 0 \<and> within_start self (fst (entries c ! (q - 1)))
                           then IN_BETWEEN else BEFORE_START))))"
proof -
  have land: "reposition_at_stop (moved self c p AFTER_STOP) (c\<lparr>position := p\<rparr>) =
      c\<lparr>position := last_before_stop self (entries c)\<rparr>"
    using reposition_at_stop_lands [of "moved self c p AFTER_STOP" "c\<lparr>position := p\<rparr>"] assms
    by simp
  have inside: "\<And>q. last_before_stop self (entries c) = Some q \<Longrightarrow> q < length (entries c)"
  proof -
    fix q assume "last_before_stop self (entries c) = Some q"
    then have "q < length (takeWhile (\<lambda>e. within_stop self (fst e)) (entries c))"
      by (auto simp: last_before_stop_def Let_def length_greater_0_conv [symmetric]
          simp del: length_greater_0_conv split: if_splits)
    then show "q < length (entries c)"
      using length_takeWhile_le [of "\<lambda>e. within_stop self (fst e)" "entries c"] by simp
  qed
  show ?thesis
  proof (cases "last_before_stop self (entries c)")
    case None
    then show ?thesis
      by (simp add: real_prev_def real_prev_position_def land)
  next
    case (Some q)
    have ne: "0 < length (entries c)" using inside [OF Some] by (cases "entries c") simp_all
    show ?thesis
    proof (cases "item_at self (entries c ! q)")
      case (Inl err)
      then show ?thesis
        using assms(4) inside [OF Some] Some ne
        by (simp add: real_prev_def real_prev_position_def land real_prev_yield_at
            raise_for_status_def split: option.splits)
    next
      case (Inr out)
      then show ?thesis
        using assms(4) inside [OF Some] Some ne
        by (auto simp: real_prev_def real_prev_position_def land real_prev_yield_at
            raise_for_status_def split: option.splits)
    qed
  qed
qed

subsection \<open>The bounds along an ordered store\<close>

lemma within_start_later:
  assumes tot: "total_order (comparator self)"
    and "within_start self k" and "comparator self k k' < 0"
  shows "within_start self k'"
proof (cases "start self")
  case None
  then show ?thesis by (simp add: within_start_def)
next
  case (Some s)
  show ?thesis
  proof (cases "include_start self")
    case True
    have "\<not> comparator self k' s < 0"
    proof
      assume "comparator self k' s < 0"
      with assms(3) tot have "comparator self k s < 0" by (blast intro: total_order_trans)
      with assms(2) Some True show False by (simp add: within_start_def)
    qed
    then show ?thesis using Some True by (simp add: within_start_def)
  next
    case False
    with assms(2) Some have "comparator self k s > 0" by (simp add: within_start_def)
    then have "comparator self s k < 0" using tot by (simp add: total_order_flip)
    with assms(3) tot have "comparator self s k' < 0" by (blast intro: total_order_trans)
    then have "comparator self k' s > 0" using tot by (simp add: total_order_flip)
    then show ?thesis using Some False by (simp add: within_start_def)
  qed
qed

lemma within_stop_earlier:
  assumes tot: "total_order (comparator self)"
    and "within_stop self k'" and "comparator self k k' < 0"
  shows "within_stop self k"
proof (cases "stop self")
  case None
  then show ?thesis by (simp add: within_stop_def)
next
  case (Some t)
  show ?thesis
  proof (cases "include_stop self")
    case True
    with assms(2) Some have "comparator self k' t \<le> 0" by (simp add: within_stop_def)
    with assms(3) tot have "comparator self k t < 0" by (blast intro: total_order_less_le)
    then show ?thesis using Some True by (simp add: within_stop_def)
  next
    case False
    with assms(2) Some have "comparator self k' t < 0" by (simp add: within_stop_def)
    with assms(3) tot have "comparator self k t < 0" by (blast intro: total_order_trans)
    then show ?thesis using Some False by (simp add: within_stop_def)
  qed
qed

lemma first_from_start_within:
  assumes "first_from_start self es = Some j"
  shows "j < length es \<and> within_start self (fst (es ! j))"
proof -
  let ?Q = "\<lambda>e. \<not> within_start self (fst e)"
  from assms have j: "j = length (takeWhile ?Q es)" and lt: "j < length es"
    by (simp_all add: first_from_start_def Let_def split: if_splits)
  from lt have "\<not> ?Q (es ! j)" unfolding j by (rule nth_length_takeWhile)
  with lt show ?thesis by simp
qed

lemma first_from_start_at:
  assumes tot: "total_order (comparator self)"
    and srt: "sorted_wrt (\<lambda>a b. comparator self (fst a) (fst b) < 0) es"
    and q: "q < length es" and inside: "within_start self (fst (es ! q))"
    and before: "q \<noteq> 0 \<Longrightarrow> \<not> within_start self (fst (es ! (q - 1)))"
  shows "first_from_start self es = Some q"
proof -
  let ?Q = "\<lambda>e. \<not> within_start self (fst e)"
  have "length (takeWhile ?Q es) = q"
  proof (rule length_takeWhile_eqI)
    show "q \<le> length es" using q by simp
  next
    fix i assume i: "i < q"
    then have q0: "q \<noteq> 0" by simp
    show "?Q (es ! i)"
    proof (cases "i = q - 1")
      case True
      then show ?thesis using before [OF q0] by simp
    next
      case False
      with i have "i < q - 1" by simp
      then have "comparator self (fst (es ! i)) (fst (es ! (q - 1))) < 0"
        using srt q by (intro ascending_entries_nth) simp_all
      then show ?thesis
        using within_start_later [OF tot] before [OF q0] by blast
    qed
  next
    show "\<not> ?Q (es ! q)" using inside by simp
  qed
  then show ?thesis using q by (simp add: first_from_start_def)
qed

lemma last_before_stop_within:
  assumes "last_before_stop self es = Some q"
  shows "q < length es \<and> within_stop self (fst (es ! q))"
proof -
  let ?R = "\<lambda>e. within_stop self (fst e)"
  from assms have "q < length (takeWhile ?R es)"
    by (auto simp: last_before_stop_def Let_def length_greater_0_conv [symmetric]
        simp del: length_greater_0_conv split: if_splits)
  then have "?R (es ! q)" and "q < length es"
    using takeWhile_before [of q ?R es] length_takeWhile_le [of ?R es] by simp_all
  then show ?thesis by simp
qed

lemma last_before_stop_at:
  assumes tot: "total_order (comparator self)"
    and srt: "sorted_wrt (\<lambda>a b. comparator self (fst a) (fst b) < 0) es"
    and q: "q < length es" and inside: "within_stop self (fst (es ! q))"
    and after: "Suc q < length es \<Longrightarrow> \<not> within_stop self (fst (es ! Suc q))"
  shows "last_before_stop self es = Some q"
proof -
  let ?R = "\<lambda>e. within_stop self (fst e)"
  have "length (takeWhile ?R es) = Suc q"
  proof (rule length_takeWhile_eqI)
    show "Suc q \<le> length es" using q by simp
  next
    fix i assume i: "i < Suc q"
    show "?R (es ! i)"
    proof (cases "i = q")
      case True
      then show ?thesis using inside by simp
    next
      case False
      with i have "i < q" by simp
      then have "comparator self (fst (es ! i)) (fst (es ! q)) < 0"
        using srt q by (intro ascending_entries_nth) simp_all
      then show ?thesis
        using within_stop_earlier [OF tot inside] by blast
    qed
  next
    assume "Suc q < length es"
    then show "\<not> ?R (es ! Suc q)" by (rule after)
  qed
  then show ?thesis by (simp add: last_before_stop_def)
qed

subsection \<open>The points of a traversal\<close>

lemma ordered_cursor_moved [simp]:
  "ordered_entries (moved self c' p st) c = ordered_entries self c"
  "ordered_entries self (c\<lparr>position := p\<rparr>) = ordered_entries self c"
  "ordered_cursor (moved self c' p st) c = ordered_cursor self c"
  "ordered_cursor self (c\<lparr>position := p\<rparr>) = ordered_cursor self c"
  by (simp_all add: ordered_cursor_def ordered_entries_def)

lemma settled_moved:
  "settled (moved self c p st) =
     (ordered_cursor self c \<and> st \<noteq> IN_BETWEEN_ALREADY_POSITIONED \<and>
      (st = IN_BETWEEN \<longrightarrow>
         (\<exists>i. p = Some i \<and> i < length (entries c) \<and>
              within_bounds self (fst (entries c ! i)))))"
  by (auto simp: settled_def ordered_store_def within_bounds_def split: option.splits if_splits)

lemma settled_cursor:
  assumes "settled self"
  obtains c where "iter self = Some c" and "ordered_cursor self c"
    and "self = moved self c (position c) (state self)"
  using assms
  by (auto simp: settled_def ordered_store_def moved_here split: option.splits)

lemma settled_either:
  "settled a \<Longrightarrow> settled b \<Longrightarrow>
   settled (snd (case r of Inl err \<Rightarrow> (Raise err, a) | Inr out \<Rightarrow> (Return out, b)))"
  by (cases r) simp_all

lemma real_next_settled:
  assumes oc: "ordered_cursor self c" and st: "settled (moved self c p st)"
  shows "settled (snd (real_next (moved self c p st)))"
proof -
  from oc have tot: "total_order (comparator self)" and ord: "ordering c = comparator self"
    and srt: "sorted_wrt (\<lambda>a b. comparator self (fst a) (fst b) < 0) (entries c)"
    and ok: "cursor_status c = StatusOK"
    by (simp_all add: ordered_cursor_def ordered_entries_def)
  show ?thesis
  proof (cases st)
    case BEFORE_START
    show ?thesis
    proof (cases "first_from_start self (entries c)")
      case None
      then show ?thesis
        using oc BEFORE_START
        by (simp add: real_next_BEFORE_START [OF tot ord srt ok] settled_moved)
    next
      case (Some j)
      with first_from_start_within [OF Some] show ?thesis
        using oc BEFORE_START
        by (simp add: real_next_BEFORE_START [OF tot ord srt ok] settled_moved within_bounds_def)
    qed
  next
    case AFTER_STOP
    then show ?thesis using st by (simp add: real_next_AFTER_STOP)
  next
    case IN_BETWEEN
    with st obtain i where i: "p = Some i" "i < length (entries c)"
      "within_bounds self (fst (entries c ! i))"
      by (auto simp: settled_moved)
    have later: "Suc i < length (entries c) \<Longrightarrow> within_start self (fst (entries c ! Suc i))"
    proof -
      assume "Suc i < length (entries c)"
      then have "comparator self (fst (entries c ! i)) (fst (entries c ! Suc i)) < 0"
        using srt by (intro ascending_entries_nth) simp_all
      with i(3) show ?thesis
        using within_start_later [OF tot] by (auto simp: within_bounds_def)
    qed
    show ?thesis
      using oc IN_BETWEEN i later
      by (simp add: real_next_IN_BETWEEN [OF ok i(2)] settled_moved within_bounds_def)
  next
    case IN_BETWEEN_ALREADY_POSITIONED
    with st show ?thesis by (simp add: settled_moved)
  qed
qed

lemma real_prev_target_settled:
  assumes oc: "ordered_cursor self c" and q: "q < length (entries c)"
    and stop: "within_stop self (fst (entries c ! q))"
  shows "settled (moved self c (if q = 0 then None else Some (q - 1))
           (if q \<noteq> 0 \<and> within_start self (fst (entries c ! (q - 1)))
            then IN_BETWEEN else BEFORE_START))"
proof (cases "q \<noteq> 0 \<and> within_start self (fst (entries c ! (q - 1)))")
  case False
  then show ?thesis using oc by (auto simp: settled_moved)
next
  case True
  from oc have tot: "total_order (comparator self)"
    and srt: "sorted_wrt (\<lambda>a b. comparator self (fst a) (fst b) < 0) (entries c)"
    by (simp_all add: ordered_cursor_def ordered_entries_def)
  have "comparator self (fst (entries c ! (q - 1))) (fst (entries c ! q)) < 0"
    using srt q True by (intro ascending_entries_nth) simp_all
  then have "within_stop self (fst (entries c ! (q - 1)))"
    using within_stop_earlier [OF tot stop] by simp
  then show ?thesis using oc True q by (simp add: settled_moved within_bounds_def)
qed

lemma real_prev_settled:
  assumes oc: "ordered_cursor self c" and st: "settled (moved self c p st)"
  shows "settled (snd (real_prev (moved self c p st)))"
proof -
  from oc have tot: "total_order (comparator self)" and ord: "ordering c = comparator self"
    and srt: "sorted_wrt (\<lambda>a b. comparator self (fst a) (fst b) < 0) (entries c)"
    and ok: "cursor_status c = StatusOK"
    by (simp_all add: ordered_cursor_def ordered_entries_def)
  show ?thesis
  proof (cases st)
    case BEFORE_START
    then show ?thesis using st by (simp add: real_prev_BEFORE_START)
  next
    case AFTER_STOP
    show ?thesis
    proof (cases "last_before_stop self (entries c)")
      case None
      then show ?thesis
        using oc AFTER_STOP
        by (simp add: real_prev_AFTER_STOP [OF tot ord srt ok] settled_moved)
    next
      case (Some q)
      from last_before_stop_within [OF Some]
      have q: "q < length (entries c)" and stop: "within_stop self (fst (entries c ! q))"
        by simp_all
      have "settled (moved self c (Some q) AFTER_STOP)"
        using oc by (simp add: settled_moved)
      from settled_either [OF this real_prev_target_settled [OF oc q stop]]
      show ?thesis
        using oc AFTER_STOP Some
        by (simp add: real_prev_AFTER_STOP [OF tot ord srt ok] settled_moved)
    qed
  next
    case IN_BETWEEN
    with st obtain i where i: "p = Some i" "i < length (entries c)"
      "within_bounds self (fst (entries c ! i))"
      by (auto simp: settled_moved)
    then have stop: "within_stop self (fst (entries c ! i))" by (simp add: within_bounds_def)
    have "settled (moved self c (Some i) IN_BETWEEN)"
      using st IN_BETWEEN i by simp
    from settled_either [OF this real_prev_target_settled [OF oc i(2) stop]]
    show ?thesis
      using IN_BETWEEN i
      by (simp add: real_prev_IN_BETWEEN [OF ok i(2)])
  next
    case IN_BETWEEN_ALREADY_POSITIONED
    with st show ?thesis by (simp add: settled_moved)
  qed
qed

section \<open>What an iterator yields\<close>

subsection \<open>Consuming a forward iterator\<close>

lemma consume_more:
  "consume n self = Some r \<Longrightarrow> n \<le> m \<Longrightarrow> consume m self = Some r"
proof (induction n arbitrary: m self r)
  case 0
  then show ?case by simp
next
  case (Suc n)
  then obtain m' where m: "m = Suc m'" and le: "n \<le> m'"
    by (cases m) auto
  show ?case
  proof (cases "Iterator_next self")
    case (Pair out self')
    show ?thesis
    proof (cases out)
      case (Return x)
      with Suc.prems(1) Pair obtain outs err
        where inner: "consume n self' = Some (outs, err)" and r: "r = (x # outs, err)"
        by (auto split: option.splits)
      from Suc.IH [OF inner le] show ?thesis
        using Pair Return r m by simp
    next
      case StopIteration
      with Suc.prems(1) Pair m show ?thesis by simp
    next
      case (Raise err)
      with Suc.prems(1) Pair m show ?thesis by simp
    qed
  qed
qed

lemma consume_forward_from:
  assumes ok: "cursor_status c = StatusOK" and dir: "direction self = FORWARD"
    and slice: "\<forall>e \<in> set (entries c). sliceable self (fst e)"
  shows "i < length (entries c) \<Longrightarrow>
         consume (Suc (length (entries c) - i)) (moved self c (Some i) IN_BETWEEN) =
           Some (map (item_of self)
                   (takeWhile (\<lambda>e. within_stop self (fst e)) (drop (Suc i) (entries c))), None)"
proof (induction k \<equiv> "length (entries c) - i" arbitrary: i)
  case 0
  then show ?case by simp
next
  case (Suc k)
  let ?es = "entries c"
  have nxt: "Iterator_next (moved self c (Some i) IN_BETWEEN) =
      real_next (moved self c (Some i) IN_BETWEEN)"
    using dir by (simp add: Iterator_next_def)
  show ?case
  proof (cases "Suc i < length ?es")
    case False
    then show ?thesis
      using Suc.prems Suc.hyps(2) [symmetric]
      by (simp add: item_at_nth [OF slice] nxt real_next_IN_BETWEEN [OF ok Suc.prems])
  next
    case True
    then have k: "k = length ?es - Suc i" using Suc.hyps(2) by simp
    have tail: "drop (Suc i) ?es = ?es ! Suc i # drop (Suc (Suc i)) ?es"
      using True by (simp add: Cons_nth_drop_Suc)
    show ?thesis
    proof (cases "within_stop self (fst (?es ! Suc i))")
      case False
      then show ?thesis
        using True Suc.hyps(2) [symmetric]
        by (simp add: item_at_nth [OF slice] nxt real_next_IN_BETWEEN [OF ok Suc.prems] tail)
    next
      case inside: True
      from Suc.hyps(1) [OF k True]
      have "consume (Suc k) (moved self c (Some (Suc i)) IN_BETWEEN) =
          Some (map (item_of self)
                  (takeWhile (\<lambda>e. within_stop self (fst e)) (drop (Suc (Suc i)) ?es)), None)"
        using k by simp
      then show ?thesis
        using True inside Suc.hyps(2) [symmetric]
        by (simp add: item_at_nth [OF slice] nxt real_next_IN_BETWEEN [OF ok Suc.prems] tail)
    qed
  qed
qed

lemma consume_forward_run:
  assumes oc: "ordered_cursor self c" and dir: "direction self = FORWARD"
    and slice: "\<forall>e \<in> set (entries c). sliceable self (fst e)"
  shows "consume (length (entries c) + 2) (moved self c p BEFORE_START) =
           Some (map (item_of self)
                   (takeWhile (\<lambda>e. within_stop self (fst e))
                      (dropWhile (\<lambda>e. \<not> within_start self (fst e)) (entries c))), None)"
proof -
  from oc have tot: "total_order (comparator self)" and ord: "ordering c = comparator self"
    and srt: "sorted_wrt (\<lambda>a b. comparator self (fst a) (fst b) < 0) (entries c)"
    and ok: "cursor_status c = StatusOK"
    by (simp_all add: ordered_cursor_def ordered_entries_def)
  let ?es = "entries c"
  let ?W = "\<lambda>e. \<not> within_start self (fst e)"
  have nxt: "Iterator_next (moved self c p BEFORE_START) = real_next (moved self c p BEFORE_START)"
    using dir by (simp add: Iterator_next_def)
  have dropped: "dropWhile ?W ?es = drop (length (takeWhile ?W ?es)) ?es"
    by (rule dropWhile_eq_drop)
  show ?thesis
  proof (cases "first_from_start self ?es")
    case None
    then have "length ?es \<le> length (takeWhile ?W ?es)"
      by (simp add: first_from_start_def Let_def split: if_splits)
    then show ?thesis
      using None
      by (simp add: item_at_nth [OF slice]
          nxt real_next_BEFORE_START [OF tot ord srt ok] dropped)
  next
    case (Some j)
    then have j: "j = length (takeWhile ?W ?es)" and lt: "j < length ?es"
      by (simp_all add: first_from_start_def Let_def split: if_splits)
    have tail: "dropWhile ?W ?es = ?es ! j # drop (Suc j) ?es"
      using lt by (simp add: dropped j [symmetric] Cons_nth_drop_Suc)
    show ?thesis
    proof (cases "within_stop self (fst (?es ! j))")
      case False
      then show ?thesis
        using Some
        by (simp add: item_at_nth [OF slice]
            nxt real_next_BEFORE_START [OF tot ord srt ok] tail)
    next
      case True
      have "consume (Suc (length ?es)) (moved self c (Some j) IN_BETWEEN) =
          Some (map (item_of self)
                  (takeWhile (\<lambda>e. within_stop self (fst e)) (drop (Suc j) ?es)), None)"
        using consume_forward_from [OF ok dir slice lt] by (rule consume_more) simp
      then show ?thesis
        using Some True lt
        by (simp add: item_at_nth [OF slice] nxt real_next_BEFORE_START [OF tot ord srt ok] tail)
    qed
  qed
qed

subsection \<open>Runs and filters of an ordered list\<close>

lemma dropWhile_upward:
  assumes "sorted_wrt R xs" and "\<And>x y. R x y \<Longrightarrow> P x \<Longrightarrow> P y"
  shows "dropWhile (\<lambda>x. \<not> P x) xs = filter P xs"
  using assms(1)
proof (induction xs)
  case Nil
  then show ?case by simp
next
  case (Cons x xs)
  show ?case
  proof (cases "P x")
    case True
    with Cons.prems assms(2) have "\<forall>y \<in> set xs. P y" by auto
    then have "filter P xs = xs" by (simp add: filter_id_conv)
    with True show ?thesis by simp
  next
    case False
    with Cons show ?thesis by simp
  qed
qed

lemma takeWhile_downward:
  assumes "sorted_wrt R xs" and "\<And>x y. R x y \<Longrightarrow> Q y \<Longrightarrow> Q x"
  shows "takeWhile Q xs = filter Q xs"
  using assms(1)
proof (induction xs)
  case Nil
  then show ?case by simp
next
  case (Cons x xs)
  show ?case
  proof (cases "Q x")
    case True
    with Cons show ?thesis by simp
  next
    case False
    with Cons.prems assms(2) have "\<forall>y \<in> set xs. \<not> Q y" by auto
    then have "filter Q xs = []" by (simp add: filter_empty_conv)
    with False show ?thesis by simp
  qed
qed

lemma ordered_run_is_range:
  assumes tot: "total_order (comparator self)"
    and srt: "sorted_wrt (\<lambda>a b. comparator self (fst a) (fst b) < 0) es"
  shows "takeWhile (\<lambda>e. within_stop self (fst e))
           (dropWhile (\<lambda>e. \<not> within_start self (fst e)) es) =
         filter (\<lambda>e. within_bounds self (fst e)) es"
proof -
  let ?R = "\<lambda>a b. comparator self (fst a) (fst b) < 0"
  have up: "dropWhile (\<lambda>e. \<not> within_start self (fst e)) es =
      filter (\<lambda>e. within_start self (fst e)) es"
    using srt within_start_later [OF tot] by (intro dropWhile_upward [where R = ?R]) auto
  have "sorted_wrt ?R (filter (\<lambda>e. within_start self (fst e)) es)"
    using srt by (rule sorted_wrt_filter)
  then have down: "takeWhile (\<lambda>e. within_stop self (fst e))
      (filter (\<lambda>e. within_start self (fst e)) es) =
      filter (\<lambda>e. within_stop self (fst e)) (filter (\<lambda>e. within_start self (fst e)) es)"
    using within_stop_earlier [OF tot] by (intro takeWhile_downward [where R = ?R]) auto
  show ?thesis
    by (simp add: up down within_bounds_def)
qed

text \<open>
  Forward iteration, for every ordered store and every combination of bounds: a
  forward iterator consumed from \<open>BEFORE_START\<close> yields exactly the entries whose keys
  are within the bounds, in the order of the store, which is ascending.  The keys are
  taken to be ones that \<open>current\<close> can cut, as those of an iterator without a key
  prefix are.
\<close>

lemma forward_iteration_yields_range:
  assumes "ordered_store self" and "iter self = Some c"
    and "direction self = FORWARD" and "state self = BEFORE_START"
    and "length (entries c) + 2 \<le> fuel"
    and "\<forall>e \<in> set (entries c). sliceable self (fst e)"
  shows "consume fuel self =
           Some (map (item_of self) (filter (\<lambda>e. within_bounds self (fst e)) (entries c)), None)"
proof -
  from assms(1,2) have oc: "ordered_cursor self c"
    by (simp add: ordered_store_def)
  then have tot: "total_order (comparator self)"
    and srt: "sorted_wrt (\<lambda>a b. comparator self (fst a) (fst b) < 0) (entries c)"
    by (simp_all add: ordered_cursor_def ordered_entries_def)
  have here: "self = moved self c (position c) BEFORE_START"
    using moved_here [OF assms(2)] assms(4) by simp
  have "consume (length (entries c) + 2) (moved self c (position c) BEFORE_START) =
      Some (map (item_of self) (filter (\<lambda>e. within_bounds self (fst e)) (entries c)), None)"
    using consume_forward_run [OF oc assms(3,6)] ordered_run_is_range [OF tot srt] by simp
  then have "consume fuel (moved self c (position c) BEFORE_START) =
      Some (map (item_of self) (filter (\<lambda>e. within_bounds self (fst e)) (entries c)), None)"
    using assms(5) by (rule consume_more)
  with here show ?thesis by simp
qed

subsection \<open>Consuming a reverse iterator\<close>

lemma consume_reverse_from:
  assumes ok: "cursor_status c = StatusOK" and dir: "direction self = REVERSE"
    and slice: "\<forall>e \<in> set (entries c). sliceable self (fst e)"
  shows "q < length (entries c) \<Longrightarrow>
         consume (q + 2) (moved self c (Some q) IN_BETWEEN) =
           Some (map (item_of self)
                   (entries c ! q #
                    takeWhile (\<lambda>e. within_start self (fst e)) (rev (take q (entries c)))), None)"
proof (induction q)
  case 0
  have "Iterator_next (moved self c None BEFORE_START) =
      (StopIteration, moved self c None BEFORE_START)"
    using dir by (simp add: item_at_nth [OF slice] Iterator_next_def real_prev_BEFORE_START)
  then show ?case
    using dir "0.prems"
    by (simp add: item_at_nth [OF slice]
        Iterator_next_def real_prev_IN_BETWEEN [OF ok])
next
  case (Suc q)
  let ?es = "entries c"
  have q: "q < length ?es" using Suc.prems by simp
  have nxt: "Iterator_next (moved self c (Some (Suc q)) IN_BETWEEN) =
      (Return (item_of self (?es ! Suc q)),
       moved self c (Some q)
         (if within_start self (fst (?es ! q)) then IN_BETWEEN else BEFORE_START))"
    using dir Suc.prems
    by (simp add: item_at_nth [OF slice]
        Iterator_next_def real_prev_IN_BETWEEN [OF ok])
  have rv: "rev (take (Suc q) ?es) = ?es ! q # rev (take q ?es)"
    using q by (simp add: take_Suc_conv_app_nth)
  show ?case
  proof (cases "within_start self (fst (?es ! q))")
    case True
    with Suc.IH [OF q] show ?thesis by (simp add: nxt rv)
  next
    case False
    have "Iterator_next (moved self c (Some q) BEFORE_START) =
        (StopIteration, moved self c (Some q) BEFORE_START)"
      using dir by (simp add: item_at_nth [OF slice] Iterator_next_def real_prev_BEFORE_START)
    with False show ?thesis by (simp add: nxt rv)
  qed
qed

lemma consume_reverse_run:
  assumes oc: "ordered_cursor self c" and dir: "direction self = REVERSE"
    and slice: "\<forall>e \<in> set (entries c). sliceable self (fst e)"
  shows "consume (length (entries c) + 2) (moved self c p AFTER_STOP) =
           Some ((case last_before_stop self (entries c) of
                    None \<Rightarrow> []
                  | Some q \<Rightarrow>
                      if (case start self of
                            None \<Rightarrow> False
                          | Some s \<Rightarrow> comparator self s (fst (entries c ! q)) \<ge> 0)
                      then []
                      else map (item_of self)
                             (entries c ! q #
                              takeWhile (\<lambda>e. within_start self (fst e))
                                (rev (take q (entries c))))), None)"
proof -
  from oc have tot: "total_order (comparator self)" and ord: "ordering c = comparator self"
    and srt: "sorted_wrt (\<lambda>a b. comparator self (fst a) (fst b) < 0) (entries c)"
    and ok: "cursor_status c = StatusOK"
    by (simp_all add: ordered_cursor_def ordered_entries_def)
  let ?es = "entries c"
  have nxt: "Iterator_next (moved self c p AFTER_STOP) = real_prev (moved self c p AFTER_STOP)"
    using dir by (simp add: Iterator_next_def)
  show ?thesis
  proof (cases "last_before_stop self ?es")
    case None
    then show ?thesis
      by (simp add: item_at_nth [OF slice] nxt real_prev_AFTER_STOP [OF tot ord srt ok])
  next
    case (Some q)
    from last_before_stop_within [OF Some] have q: "q < length ?es" by simp
    show ?thesis
    proof (cases "case start self of None \<Rightarrow> False
                  | Some s \<Rightarrow> comparator self s (fst (?es ! q)) \<ge> 0")
      case True
      then show ?thesis
        using Some
        by (simp add: item_at_nth [OF slice]
            nxt real_prev_AFTER_STOP [OF tot ord srt ok])
    next
      case False
      have same: "Iterator_next (moved self c p AFTER_STOP) =
          Iterator_next (moved self c (Some q) IN_BETWEEN)"
        using dir Some False q
        by (simp add: item_at_nth [OF slice] Iterator_next_def
            real_prev_AFTER_STOP [OF tot ord srt ok] real_prev_IN_BETWEEN [OF ok q])
      have "consume (length ?es + 2) (moved self c (Some q) IN_BETWEEN) =
          Some (map (item_of self)
                  (?es ! q # takeWhile (\<lambda>e. within_start self (fst e)) (rev (take q ?es))), None)"
        using q by (intro consume_more [OF consume_reverse_from [OF ok dir slice q]]) simp
      moreover have "consume (length ?es + 2) (moved self c p AFTER_STOP) =
          consume (length ?es + 2) (moved self c (Some q) IN_BETWEEN)"
        by (simp add: same)
      ultimately show ?thesis using Some False by simp
    qed
  qed
qed


lemma within_stop_run:
  assumes tot: "total_order (comparator self)"
    and srt: "sorted_wrt (\<lambda>a b. comparator self (fst a) (fst b) < 0) es"
  shows "filter (\<lambda>e. within_stop self (fst e)) es =
         take (length (takeWhile (\<lambda>e. within_stop self (fst e)) es)) es"
proof -
  have "takeWhile (\<lambda>e. within_stop self (fst e)) es = filter (\<lambda>e. within_stop self (fst e)) es"
    using srt within_stop_earlier [OF tot]
    by (intro takeWhile_downward [where R = "\<lambda>a b. comparator self (fst a) (fst b) < 0"]) auto
  then show ?thesis using takeWhile_eq_take [of "\<lambda>e. within_stop self (fst e)" es] by simp
qed

lemma range_before_stop:
  assumes tot: "total_order (comparator self)"
    and srt: "sorted_wrt (\<lambda>a b. comparator self (fst a) (fst b) < 0) es"
  shows "filter (\<lambda>e. within_bounds self (fst e)) es =
         filter (\<lambda>e. within_start self (fst e))
           (take (length (takeWhile (\<lambda>e. within_stop self (fst e)) es)) es)"
proof -
  have "filter (\<lambda>e. within_bounds self (fst e)) es =
      filter (\<lambda>e. within_start self (fst e)) (filter (\<lambda>e. within_stop self (fst e)) es)"
    by (simp add: within_bounds_def conj_commute)
  then show ?thesis by (simp only: within_stop_run [OF tot srt])
qed

lemma reverse_run_is_range:
  assumes tot: "total_order (comparator self)"
    and srt: "sorted_wrt (\<lambda>a b. comparator self (fst a) (fst b) < 0) es"
    and last: "last_before_stop self es = Some q"
    and inside: "within_start self (fst (es ! q))"
  shows "es ! q # takeWhile (\<lambda>e. within_start self (fst e)) (rev (take q es)) =
         rev (filter (\<lambda>e. within_bounds self (fst e)) es)"
proof -
  let ?W = "\<lambda>e. within_start self (fst e)"
  let ?R = "\<lambda>a b. comparator self (fst a) (fst b) < 0"
  from last_before_stop_within [OF last] have q: "q < length es" by simp
  from last have m: "length (takeWhile (\<lambda>e. within_stop self (fst e)) es) = Suc q"
    by (auto simp: last_before_stop_def Let_def split: if_splits)
  have "sorted_wrt (\<lambda>a b. ?R b a) (rev (take (Suc q) es))"
    using srt by (simp add: sorted_wrt_rev sorted_wrt_take)
  then have "takeWhile ?W (rev (take (Suc q) es)) = filter ?W (rev (take (Suc q) es))"
    using within_start_later [OF tot]
    by (intro takeWhile_downward [where R = "\<lambda>a b. ?R b a"]) auto
  also have "\<dots> = rev (filter ?W (take (Suc q) es))"
    by (simp add: rev_filter)
  also have "\<dots> = rev (filter (\<lambda>e. within_bounds self (fst e)) es)"
    by (simp only: range_before_stop [OF tot srt] m)
  finally have "takeWhile ?W (rev (take (Suc q) es)) =
      rev (filter (\<lambda>e. within_bounds self (fst e)) es)" .
  moreover have "rev (take (Suc q) es) = es ! q # rev (take q es)"
    using q by (simp add: take_Suc_conv_app_nth)
  ultimately show ?thesis using inside by simp
qed

lemma empty_range_before_start:
  assumes tot: "total_order (comparator self)"
    and srt: "sorted_wrt (\<lambda>a b. comparator self (fst a) (fst b) < 0) es"
    and last: "last_before_stop self es = Some q"
    and start: "start self = Some s" and blocked: "comparator self s (fst (es ! q)) \<ge> 0"
    and other: "\<not> (include_start self \<and> s = fst (es ! q))"
  shows "filter (\<lambda>e. within_bounds self (fst e)) es = []"
proof -
  let ?cmp = "comparator self"
  from last_before_stop_within [OF last] have q: "q < length es" by simp
  from last have m: "length (takeWhile (\<lambda>e. within_stop self (fst e)) es) = Suc q"
    by (auto simp: last_before_stop_def Let_def split: if_splits)
  from blocked have qs: "?cmp (fst (es ! q)) s \<le> 0"
    using tot by (simp add: total_order_ge_flip)
  have "\<forall>e \<in> set (take (Suc q) es). \<not> within_start self (fst e)"
  proof
    fix e assume "e \<in> set (take (Suc q) es)"
    then obtain i where i: "i < Suc q" and e: "e = es ! i"
      using q by (auto simp: in_set_conv_nth)
    have iq: "?cmp (fst (es ! i)) (fst (es ! q)) \<le> 0"
    proof (cases "i = q")
      case True
      have "?cmp (fst (es ! q)) (fst (es ! q)) = 0"
        using tot by (simp add: total_order_eq)
      with True show ?thesis by simp
    next
      case False
      with i have "i < q" by simp
      then have "?cmp (fst (es ! i)) (fst (es ! q)) < 0"
        using srt q by (intro ascending_entries_nth) simp_all
      then show ?thesis by simp
    qed
    from total_order_le_le [OF tot iq qs] have le: "?cmp (fst (es ! i)) s \<le> 0" .
    show "\<not> within_start self (fst e)"
    proof
      assume w: "within_start self (fst e)"
      show False
      proof (cases "include_start self")
        case False
        with w start e le show False by (simp add: within_start_def)
      next
        case True
        with w start e le have "?cmp (fst (es ! i)) s = 0" by (simp add: within_start_def)
        then have key: "fst (es ! i) = s" using tot by (simp add: total_order_eq)
        with iq key have "?cmp s (fst (es ! q)) \<le> 0" by simp
        with blocked have "?cmp s (fst (es ! q)) = 0" by simp
        then have "s = fst (es ! q)" using tot by (simp add: total_order_eq)
        with True other show False by simp
      qed
    qed
  qed
  then have "filter (\<lambda>e. within_start self (fst e)) (take (Suc q) es) = []"
    by (simp add: filter_empty_conv)
  then show ?thesis by (simp only: range_before_stop [OF tot srt] m)
qed

lemma empty_range_without_stop_run:
  assumes tot: "total_order (comparator self)"
    and srt: "sorted_wrt (\<lambda>a b. comparator self (fst a) (fst b) < 0) es"
    and last: "last_before_stop self es = None"
  shows "filter (\<lambda>e. within_bounds self (fst e)) es = []"
proof -
  from last have "length (takeWhile (\<lambda>e. within_stop self (fst e)) es) = 0"
    by (simp add: last_before_stop_def Let_def split: if_splits)
  then show ?thesis by (simp only: range_before_stop [OF tot srt]) simp
qed

text \<open>
  Reverse iteration, for every ordered store and every combination of bounds: a
  reverse iterator consumed from \<open>AFTER_STOP\<close> yields exactly the entries whose keys are
  within the bounds, in descending order, except in one case, where it yields nothing:
  when the start is inclusive and its key is the key of the last entry within the stop
  bound.  The keys are taken to be ones that \<open>current\<close> can cut.
\<close>

lemma reverse_iteration_yields_range_unless_at_start:
  assumes "ordered_store self" and "iter self = Some c"
    and "direction self = REVERSE" and "state self = AFTER_STOP"
    and "length (entries c) + 2 \<le> fuel"
    and "\<forall>e \<in> set (entries c). sliceable self (fst e)"
  shows "consume fuel self =
           Some (if include_start self \<and>
                    (\<exists>q. last_before_stop self (entries c) = Some q \<and>
                         start self = Some (fst (entries c ! q)))
                 then []
                 else rev (map (item_of self)
                        (filter (\<lambda>e. within_bounds self (fst e)) (entries c))), None)"
proof -
  let ?es = "entries c"
  let ?B = "\<lambda>e. within_bounds self (fst e)"
  from assms(1,2) have oc: "ordered_cursor self c"
    by (simp add: ordered_store_def)
  then have tot: "total_order (comparator self)"
    and srt: "sorted_wrt (\<lambda>a b. comparator self (fst a) (fst b) < 0) ?es"
    by (simp_all add: ordered_cursor_def ordered_entries_def)
  have here: "self = moved self c (position c) AFTER_STOP"
    using moved_here [OF assms(2)] assms(4) by simp
  note run = consume_more [OF consume_reverse_run [OF oc assms(3,6), of "position c"] assms(5)]
  have "consume fuel (moved self c (position c) AFTER_STOP) =
      Some (if include_start self \<and>
               (\<exists>q. last_before_stop self ?es = Some q \<and> start self = Some (fst (?es ! q)))
            then [] else rev (map (item_of self) (filter ?B ?es)), None)"
  proof (cases "last_before_stop self ?es")
    case None
    with empty_range_without_stop_run [OF tot srt None] show ?thesis
      unfolding run by simp
  next
    case (Some q)
    show ?thesis
    proof (cases "start self")
      case None
      then have "within_start self (fst (?es ! q))" by (simp add: within_start_def)
      from reverse_run_is_range [OF tot srt Some this] None Some show ?thesis
        unfolding run by (simp add: rev_map)
    next
      case start: (Some s)
      show ?thesis
      proof (cases "comparator self s (fst (?es ! q)) \<ge> 0")
        case False
        then have "comparator self (fst (?es ! q)) s > 0"
          using tot total_order_flip [of "comparator self" s "fst (?es ! q)"] by simp
        then have w: "within_start self (fst (?es ! q))"
          using start by (simp add: within_start_def)
        have "s \<noteq> fst (?es ! q)"
          using False tot total_order_eq [of "comparator self" s "fst (?es ! q)"] by auto
        with reverse_run_is_range [OF tot srt Some w] start Some False show ?thesis
          unfolding run by (simp add: rev_map)
      next
        case True
        show ?thesis
        proof (cases "include_start self \<and> s = fst (?es ! q)")
          case at_start: True
          with start Some True show ?thesis unfolding run by simp
        next
          case False
          from empty_range_before_start [OF tot srt Some start True False]
          show ?thesis
            using start Some True False unfolding run by auto
        qed
      qed
    qed
  qed
  with here show ?thesis by simp
qed

section \<open>The two directions over the same bounds\<close>

lemma a_iterators_constructed:
  "Iterator_init 1 a_DB None False (Some [0x61]) None True False None True True None =
     Inr (a_forward, a_DB\<lparr>iterators := Some [1]\<rparr>) \<and>
   Iterator_init 1 a_DB None True (Some [0x61]) None True False None True True None =
     Inr (a_reverse, a_DB\<lparr>iterators := Some [1]\<rparr>)"
  by (simp add: Iterator_init_def a_DB_def a_engine_def a_forward_def a_reverse_def
      NewIterator_def seek_to_start_def seek_to_stop_def raise_for_status_def
      DB_register_iterator_def fun_eq_iff)

text \<open>
  Claim C3 at the store with the single entry \<open>a\<close>, for the reverse iterator with
  \<open>start = a\<close> and \<open>include_start\<close> true.  The physical-prev step from \<open>AFTER_STOP\<close>
  repositions the cursor on the entry \<open>a\<close>, which compares equal to \<open>start\<close> and so is
  not strictly before it, and the step ends the sequence all the same.
\<close>

theorem real_prev_ends_at_inclusive_start:
  "state a_reverse = AFTER_STOP \<and>
   start a_reverse = Some [0x61] \<and>
   include_start a_reverse \<and>
   cursor_key (reposition_at_stop a_reverse (NewIterator a_engine None)) = Some [0x61] \<and>
   comparator a_reverse [0x61] [0x61] = 0 \<and>
   fst (real_prev a_reverse) = StopIteration"
  by (simp add: a_reverse_def a_forward_def a_engine_def NewIterator_def real_prev_def
      real_prev_position_def reposition_at_stop_def SeekToLast_def cursor_key_def
      cursor_entry_def)

lemma abc_scenario:
  "consume 5 (abc_iterator\<lparr>start := Some [0x61], stop := Some [0x63], include_stop := True\<rparr>) =
     Some ([KeyValue [0x61] [0x31], KeyValue [0x62] [0x32], KeyValue [0x63] [0x33]], None) \<and>
   consume 5 (abc_iterator\<lparr>start := Some [0x61], stop := Some [0x63]\<rparr>) =
     Some ([KeyValue [0x61] [0x31], KeyValue [0x62] [0x32]], None) \<and>
   consume 5 (abc_iterator\<lparr>start := Some [0x61], stop := Some [0x63], include_stop := True,
                            direction := REVERSE, state := AFTER_STOP\<rparr>) =
     Some ([KeyValue [0x63] [0x33], KeyValue [0x62] [0x32], KeyValue [0x61] [0x31]], None)"
  by code_simp

text \<open>
  Claim C1.  Over keys that \<open>current\<close> can cut, the forward half holds for every
  ordered store and every combination of bounds (lemma
  \<open>forward_iteration_yields_range\<close>).  The reverse half holds except when the start
  is inclusive and its key is the key of the last entry within the stop bound (lemma
  \<open>reverse_iteration_yields_range_unless_at_start\<close>); there the reverse iterator
  yields nothing.  At the store with the single entry \<open>a\<close> and the bounds
  \<open>start = a\<close>, \<open>include_start\<close> true, no stop key: the key \<open>a\<close> is within the bounds,
  the forward iterator yields it, the reverse iterator yields nothing.
\<close>

theorem reverse_iteration_misses_inclusive_start:
  "consume 2 a_forward = Some ([KeyValue [0x61] [0x31]], None) \<and>
   consume 2 a_reverse = Some ([], None)"
  by code_simp

section \<open>Round trips of \<open>next()\<close> and \<open>prev()\<close>\<close>

subsection \<open>A step forth and a step back\<close>

lemma outcome_of_Return [simp]: "(outcome_of r = Return x) = (r = Inr x)"
  by (cases r) simp_all

lemma outcome_of_StopIteration [simp]: "outcome_of r \<noteq> StopIteration"
  by (cases r) simp_all

text \<open>Where a step that returns an entry has taken it from, and where it leaves the iterator.\<close>

lemma real_next_returns:
  assumes oc: "ordered_cursor self c" and st: "settled (moved self c p st)"
    and nxt: "real_next (moved self c p st) = (Return x, s1)"
  shows "\<exists>j. j < length (entries c) \<and> within_bounds self (fst (entries c ! j)) \<and>
             item_at self (entries c ! j) = Inr x \<and> s1 = moved self c (Some j) IN_BETWEEN"
proof -
  from oc have tot: "total_order (comparator self)" and ord: "ordering c = comparator self"
    and srt: "sorted_wrt (\<lambda>a b. comparator self (fst a) (fst b) < 0) (entries c)"
    and ok: "cursor_status c = StatusOK"
    by (simp_all add: ordered_cursor_def ordered_entries_def)
  show ?thesis
  proof (cases st)
    case BEFORE_START
    show ?thesis
    proof (cases "first_from_start self (entries c)")
      case None
      with nxt BEFORE_START show ?thesis
        by (simp add: real_next_BEFORE_START [OF tot ord srt ok])
    next
      case (Some j)
      from first_from_start_within [OF Some]
      have j: "j < length (entries c)" "within_start self (fst (entries c ! j))"
        by simp_all
      from nxt BEFORE_START Some
      have "within_stop self (fst (entries c ! j))" and "item_at self (entries c ! j) = Inr x"
        and "s1 = moved self c (Some j) IN_BETWEEN"
        by (auto simp: real_next_BEFORE_START [OF tot ord srt ok] split: if_splits)
      with j show ?thesis by (auto simp: within_bounds_def)
    qed
  next
    case AFTER_STOP
    with nxt show ?thesis by (simp add: real_next_AFTER_STOP)
  next
    case IN_BETWEEN
    with st obtain i where i: "p = Some i" "i < length (entries c)"
      "within_bounds self (fst (entries c ! i))"
      by (auto simp: settled_moved)
    from nxt IN_BETWEEN i
    have next_one: "Suc i < length (entries c)" "within_stop self (fst (entries c ! Suc i))"
      "item_at self (entries c ! Suc i) = Inr x" "s1 = moved self c (Some (Suc i)) IN_BETWEEN"
      by (auto simp: real_next_IN_BETWEEN [OF ok i(2)] split: if_splits)
    have "comparator self (fst (entries c ! i)) (fst (entries c ! Suc i)) < 0"
      using srt next_one(1) by (intro ascending_entries_nth) simp_all
    with i(3) have "within_start self (fst (entries c ! Suc i))"
      using within_start_later [OF tot] by (auto simp: within_bounds_def)
    with next_one show ?thesis by (auto simp: within_bounds_def)
  next
    case IN_BETWEEN_ALREADY_POSITIONED
    with st show ?thesis by (simp add: settled_moved)
  qed
qed

lemma real_prev_returns:
  assumes oc: "ordered_cursor self c" and st: "settled (moved self c p st)"
    and prv: "real_prev (moved self c p st) = (Return y, s1)"
  shows "\<exists>q. q < length (entries c) \<and> within_bounds self (fst (entries c ! q)) \<and>
             item_at self (entries c ! q) = Inr y \<and>
             s1 = moved self c (if q = 0 then None else Some (q - 1))
                    (if q \<noteq> 0 \<and> within_start self (fst (entries c ! (q - 1)))
                     then IN_BETWEEN else BEFORE_START)"
proof -
  from oc have tot: "total_order (comparator self)" and ord: "ordering c = comparator self"
    and srt: "sorted_wrt (\<lambda>a b. comparator self (fst a) (fst b) < 0) (entries c)"
    and ok: "cursor_status c = StatusOK"
    by (simp_all add: ordered_cursor_def ordered_entries_def)
  show ?thesis
  proof (cases st)
    case BEFORE_START
    with prv show ?thesis by (simp add: real_prev_BEFORE_START)
  next
    case AFTER_STOP
    show ?thesis
    proof (cases "last_before_stop self (entries c)")
      case None
      with prv AFTER_STOP show ?thesis
        by (simp add: real_prev_AFTER_STOP [OF tot ord srt ok])
    next
      case (Some q)
      from last_before_stop_within [OF Some]
      have q: "q < length (entries c)" and stop: "within_stop self (fst (entries c ! q))"
        by simp_all
      from prv AFTER_STOP Some
      have past: "\<not> (case start self of None \<Rightarrow> False
                     | Some s \<Rightarrow> comparator self s (fst (entries c ! q)) \<ge> 0)"
        and y: "item_at self (entries c ! q) = Inr y"
        and s1: "s1 = moved self c (if q = 0 then None else Some (q - 1))
           (if q \<noteq> 0 \<and> within_start self (fst (entries c ! (q - 1)))
            then IN_BETWEEN else BEFORE_START)"
        by (auto simp: real_prev_AFTER_STOP [OF tot ord srt ok] split: if_splits sum.splits)
      have "within_start self (fst (entries c ! q))"
      proof (cases "start self")
        case None
        then show ?thesis by (simp add: within_start_def)
      next
        case (Some s)
        with past have "comparator self s (fst (entries c ! q)) < 0" by simp
        then have "comparator self (fst (entries c ! q)) s > 0"
          using tot by (simp add: total_order_flip)
        then show ?thesis using Some by (simp add: within_start_def)
      qed
      with stop have "within_bounds self (fst (entries c ! q))"
        by (simp add: within_bounds_def)
      with q y s1 show ?thesis by blast
    qed
  next
    case IN_BETWEEN
    with st obtain i where i: "p = Some i" "i < length (entries c)"
      "within_bounds self (fst (entries c ! i))"
      by (auto simp: settled_moved)
    from prv IN_BETWEEN i
    have "item_at self (entries c ! i) = Inr y"
      and "s1 = moved self c (if i = 0 then None else Some (i - 1))
           (if i \<noteq> 0 \<and> within_start self (fst (entries c ! (i - 1)))
            then IN_BETWEEN else BEFORE_START)"
      by (auto simp: real_prev_IN_BETWEEN [OF ok i(2)] split: sum.splits)
    with i show ?thesis by blast
  next
    case IN_BETWEEN_ALREADY_POSITIONED
    with st show ?thesis by (simp add: settled_moved)
  qed
qed

lemma real_next_returns_to:
  assumes oc: "ordered_cursor self c" and q: "q < length (entries c)"
    and inside: "within_bounds self (fst (entries c ! q))"
  shows "fst (real_next (moved self c (if q = 0 then None else Some (q - 1))
           (if q \<noteq> 0 \<and> within_start self (fst (entries c ! (q - 1)))
            then IN_BETWEEN else BEFORE_START))) = outcome_of (item_at self (entries c ! q))"
proof -
  from oc have tot: "total_order (comparator self)" and ord: "ordering c = comparator self"
    and srt: "sorted_wrt (\<lambda>a b. comparator self (fst a) (fst b) < 0) (entries c)"
    and ok: "cursor_status c = StatusOK"
    by (simp_all add: ordered_cursor_def ordered_entries_def)
  from inside have start: "within_start self (fst (entries c ! q))"
    and stop: "within_stop self (fst (entries c ! q))"
    by (simp_all add: within_bounds_def)
  show ?thesis
  proof (cases "q \<noteq> 0 \<and> within_start self (fst (entries c ! (q - 1)))")
    case True
    then have "q - 1 < length (entries c)" and "Suc (q - 1) = q" using q by simp_all
    then show ?thesis
      using True q stop by (simp add: real_next_IN_BETWEEN [OF ok])
  next
    case False
    then have "q \<noteq> 0 \<Longrightarrow> \<not> within_start self (fst (entries c ! (q - 1)))" by simp
    from first_from_start_at [OF tot srt q start this]
    have land: "first_from_start self (entries c) = Some q" .
    have "(if q \<noteq> 0 \<and> within_start self (fst (entries c ! (q - 1)))
           then IN_BETWEEN else BEFORE_START) = BEFORE_START"
      using False by simp
    then show ?thesis
      using stop by (simp add: real_next_BEFORE_START [OF tot ord srt ok] land)
  qed
qed

lemma real_next_then_prev:
  assumes oc: "ordered_cursor self c" and st: "settled (moved self c p st)"
    and nxt: "real_next (moved self c p st) = (Return x, s1)"
  shows "fst (real_prev s1) = Return x"
proof -
  from oc have ok: "cursor_status c = StatusOK"
    by (simp add: ordered_cursor_def)
  from real_next_returns [OF oc st nxt] obtain j
    where j: "j < length (entries c)" "item_at self (entries c ! j) = Inr x"
      "s1 = moved self c (Some j) IN_BETWEEN"
    by blast
  then show ?thesis by (simp add: real_prev_IN_BETWEEN [OF ok j(1)])
qed

lemma real_prev_then_next:
  assumes oc: "ordered_cursor self c" and st: "settled (moved self c p st)"
    and prv: "real_prev (moved self c p st) = (Return y, s1)"
  shows "fst (real_next s1) = Return y"
proof -
  from real_prev_returns [OF oc st prv] obtain q
    where q: "q < length (entries c)" "within_bounds self (fst (entries c ! q))"
      "item_at self (entries c ! q) = Inr y"
      "s1 = moved self c (if q = 0 then None else Some (q - 1))
         (if q \<noteq> 0 \<and> within_start self (fst (entries c ! (q - 1)))
          then IN_BETWEEN else BEFORE_START)"
    by blast
  from real_next_returns_to [OF oc q(1,2)] show ?thesis
    unfolding q(4) by (simp add: q(3))
qed

subsection \<open>A step past an end and a step back\<close>

text \<open>
  After a physical-next step has returned an entry, the next one ends the sequence only
  past the last entry within the stop bound, which is then the entry returned; the
  physical-prev step that follows repositions the cursor on it and returns it, unless
  its key is the start key.
\<close>

lemma real_next_ends_then_prev:
  assumes oc: "ordered_cursor self c" and st: "settled (moved self c p st)"
    and nxt: "real_next (moved self c p st) = (Return x, s1)"
    and ends: "real_next s1 = (StopIteration, s2)"
    and off: "\<not> on_start_key s1"
  shows "fst (real_prev s2) = Return x"
proof -
  from oc have tot: "total_order (comparator self)" and ord: "ordering c = comparator self"
    and srt: "sorted_wrt (\<lambda>a b. comparator self (fst a) (fst b) < 0) (entries c)"
    and ok: "cursor_status c = StatusOK"
    by (simp_all add: ordered_cursor_def ordered_entries_def)
  from real_next_returns [OF oc st nxt] obtain j
    where j: "j < length (entries c)" "within_bounds self (fst (entries c ! j))"
      "item_at self (entries c ! j) = Inr x" "s1 = moved self c (Some j) IN_BETWEEN"
    by blast
  from ends have after: "Suc j < length (entries c) \<Longrightarrow>
      \<not> within_stop self (fst (entries c ! Suc j))"
    and s2: "s2 = moved self c (if Suc j < length (entries c) then Some (Suc j) else None)
      AFTER_STOP"
    unfolding j(4) by (auto simp: real_next_IN_BETWEEN [OF ok j(1)] split: if_splits)
  from j(2) have start: "within_start self (fst (entries c ! j))"
    and stop: "within_stop self (fst (entries c ! j))"
    by (simp_all add: within_bounds_def)
  from last_before_stop_at [OF tot srt j(1) stop after]
  have land: "last_before_stop self (entries c) = Some j" .
  have past: "\<not> (case start self of None \<Rightarrow> False
                 | Some s \<Rightarrow> comparator self s (fst (entries c ! j)) \<ge> 0)"
  proof (cases "start self")
    case None
    then show ?thesis by simp
  next
    case (Some s)
    from off have "comparator self (fst (entries c ! j)) s \<noteq> 0"
      unfolding j(4) using j(1) Some by (simp add: on_start_key_def)
    moreover from start Some have "comparator self (fst (entries c ! j)) s \<ge> 0"
      by (simp add: within_start_def split: if_splits)
    ultimately have "comparator self (fst (entries c ! j)) s > 0" by simp
    then have "comparator self s (fst (entries c ! j)) < 0"
      using tot by (simp add: total_order_flip)
    with Some show ?thesis by simp
  qed
  show ?thesis
    unfolding s2 using land past j(3)
    by (simp add: real_prev_AFTER_STOP [OF tot ord srt ok])
qed

text \<open>
  After a physical-prev step has returned an entry, the next one ends the sequence only
  in front of the first entry within the start bound, which is then the entry
  returned; the physical-next step that follows positions the cursor on it and returns
  it.
\<close>

lemma real_prev_ends_then_next:
  assumes oc: "ordered_cursor self c" and st: "settled (moved self c p st)"
    and prv: "real_prev (moved self c p st) = (Return y, s1)"
    and ends: "real_prev s1 = (StopIteration, s2)"
  shows "fst (real_next s2) = Return y"
proof -
  from oc have ok: "cursor_status c = StatusOK"
    by (simp add: ordered_cursor_def)
  from real_prev_returns [OF oc st prv] obtain q
    where q: "q < length (entries c)" "within_bounds self (fst (entries c ! q))"
      "item_at self (entries c ! q) = Inr y"
      "s1 = moved self c (if q = 0 then None else Some (q - 1))
         (if q \<noteq> 0 \<and> within_start self (fst (entries c ! (q - 1)))
          then IN_BETWEEN else BEFORE_START)"
    by blast
  have "s2 = s1"
  proof (cases "q \<noteq> 0 \<and> within_start self (fst (entries c ! (q - 1)))")
    case True
    then have "q - 1 < length (entries c)" using q(1) by simp
    from real_prev_IN_BETWEEN [OF ok this, of self] ends True show ?thesis
      unfolding q(4) by (auto split: sum.splits)
  next
    case False
    with ends show ?thesis
      unfolding q(4) by (auto simp: real_prev_BEFORE_START)
  qed
  with real_next_returns_to [OF oc q(1,2)] show ?thesis
    unfolding q(4) by (simp add: q(3))
qed

subsection \<open>What a step keeps\<close>

lemma real_next_closed: "iter self = None \<Longrightarrow> real_next self = (Raise RuntimeError, self)"
  by (simp add: real_next_def)

lemma real_prev_closed: "iter self = None \<Longrightarrow> real_prev self = (Raise RuntimeError, self)"
  by (simp add: real_prev_def)

lemma real_next_check_keeps:
  "keeps_store self (snd (real_next_check self c))"
  by (simp add: real_next_check_def keeps_store_def Let_def split: option.splits sum.splits)

lemma real_prev_yield_keeps:
  assumes "iter self = Some c0" and "entries c = entries c0" and "ordering c = ordering c0"
    and "cursor_status c = cursor_status c0"
  shows "keeps_store self (snd (real_prev_yield self c))"
  using assms
  by (auto simp: real_prev_yield_def keeps_store_def Let_def split: option.splits sum.splits)

lemma keeps_store_trans:
  "keeps_store a b \<Longrightarrow> keeps_store b c \<Longrightarrow> keeps_store a c"
  by (auto simp: keeps_store_def split: option.splits)

lemma position_at_start_keeps [simp]:
  "entries (position_at_start self c) = entries c"
  "ordering (position_at_start self c) = ordering c"
  "cursor_status (position_at_start self c) = cursor_status c"
  by (simp_all add: position_at_start_def Let_def split: option.splits)

lemma reposition_at_stop_keeps [simp]:
  "entries (reposition_at_stop self c) = entries c"
  "ordering (reposition_at_stop self c) = ordering c"
  "cursor_status (reposition_at_stop self c) = cursor_status c"
  by (simp_all add: reposition_at_stop_def Let_def split: option.splits)

lemma real_next_position_keeps:
  assumes "iter self = Some c"
  shows "case real_next_position self c of
           Inl (out, s') \<Rightarrow> keeps_store self s'
         | Inr (s', c') \<Rightarrow> keeps_store self s'"
  using assms
  by (cases "state self") (simp_all add: real_next_position_def keeps_store_def Let_def)

lemma real_prev_position_keeps:
  assumes "iter self = Some c"
  shows "case real_prev_position self c of
           Inl (out, s') \<Rightarrow> keeps_store self s'
         | Inr (s', c') \<Rightarrow>
             keeps_store self s' \<and> entries c' = entries c \<and> ordering c' = ordering c \<and>
             cursor_status c' = cursor_status c"
  using assms
  by (cases "state self")
    (simp_all add: real_prev_position_def keeps_store_def Let_def split: option.splits)

lemma real_next_keeps: "keeps_store self (snd (real_next self))"
proof (cases "iter self")
  case None
  then show ?thesis by (simp add: real_next_closed keeps_store_def)
next
  case (Some c)
  show ?thesis
  proof (cases "real_next_position self c")
    case (Inl res)
    with real_next_position_keeps [OF Some] Some show ?thesis
      by (cases res) (simp add: real_next_def)
  next
    case (Inr res)
    obtain s' c' where res: "res = (s', c')" by (cases res)
    from real_next_position_keeps [OF Some] Inr res have "keeps_store self s'" by simp
    from keeps_store_trans [OF this real_next_check_keeps [of s' c']] show ?thesis
      using Some Inr res by (simp add: real_next_def)
  qed
qed

lemma real_prev_keeps: "keeps_store self (snd (real_prev self))"
proof (cases "iter self")
  case None
  then show ?thesis by (simp add: real_prev_closed keeps_store_def)
next
  case (Some c)
  show ?thesis
  proof (cases "real_prev_position self c")
    case (Inl res)
    with real_prev_position_keeps [OF Some] Some show ?thesis
      by (cases res) (simp add: real_prev_def)
  next
    case (Inr res)
    obtain s' c' where res: "res = (s', c')" by (cases res)
    from real_prev_position_keeps [OF Some] Inr res
    have k: "keeps_store self s'" and same: "entries c' = entries c" "ordering c' = ordering c"
      "cursor_status c' = cursor_status c"
      by simp_all
    from k Some obtain c0 where c0: "iter s' = Some c0" "entries c0 = entries c"
      "ordering c0 = ordering c" "cursor_status c0 = cursor_status c"
      by (auto simp: keeps_store_def split: option.splits)
    have "keeps_store s' (snd (real_prev_yield s' c'))"
      by (rule real_prev_yield_keeps [OF c0(1)]) (simp_all add: c0 same)
    from keeps_store_trans [OF k this] show ?thesis
      using Some Inr res by (simp add: real_prev_def)
  qed
qed

text \<open>A step on a failing engine returns no entry.\<close>

lemma real_next_check_no_return:
  "cursor_status c \<noteq> StatusOK \<Longrightarrow> fst (real_next_check self c) \<noteq> Return x"
  by (simp add: real_next_check_def raise_for_status_def)

lemma real_prev_yield_no_return:
  "cursor_status c \<noteq> StatusOK \<Longrightarrow> fst (real_prev_yield self c) \<noteq> Return x"
  by (simp add: real_prev_yield_def raise_for_status_def Let_def split: sum.splits)

lemma real_next_position_no_return:
  "case real_next_position self c of
     Inl (out, s') \<Rightarrow> out \<noteq> Return x
   | Inr (s', c') \<Rightarrow> cursor_status c' = cursor_status c"
  by (cases "state self") (simp_all add: real_next_position_def Let_def)

lemma real_prev_position_no_return:
  "case real_prev_position self c of
     Inl (out, s') \<Rightarrow> out \<noteq> Return x
   | Inr (s', c') \<Rightarrow> cursor_status c' = cursor_status c"
  by (cases "state self")
    (simp_all add: real_prev_position_def Let_def split: option.splits)

lemma real_next_no_return:
  assumes "iter self = Some c" and "cursor_status c \<noteq> StatusOK"
  shows "fst (real_next self) \<noteq> Return x"
proof (cases "real_next_position self c")
  case (Inl res)
  with real_next_position_no_return [where self = self and c = c and x = x] assms(1) show ?thesis
    by (cases res) (simp add: real_next_def)
next
  case (Inr res)
  obtain s' c' where res: "res = (s', c')" by (cases res)
  from real_next_position_no_return [where self = self and c = c and x = x] Inr res assms(2)
  have "cursor_status c' \<noteq> StatusOK" by simp
  from real_next_check_no_return [OF this] show ?thesis
    using assms(1) Inr res by (simp add: real_next_def)
qed

lemma real_prev_no_return:
  assumes "iter self = Some c" and "cursor_status c \<noteq> StatusOK"
  shows "fst (real_prev self) \<noteq> Return x"
proof (cases "real_prev_position self c")
  case (Inl res)
  with real_prev_position_no_return [where self = self and c = c and x = x] assms(1) show ?thesis
    by (cases res) (simp add: real_prev_def)
next
  case (Inr res)
  obtain s' c' where res: "res = (s', c')" by (cases res)
  from real_prev_position_no_return [where self = self and c = c and x = x] Inr res assms(2)
  have "cursor_status c' \<noteq> StatusOK" by simp
  from real_prev_yield_no_return [OF this] show ?thesis
    using assms(1) Inr res by (simp add: real_prev_def)
qed

subsection \<open>The points of a traversal\<close>

lemma real_next_settles: "settled self \<Longrightarrow> settled (snd (real_next self))"
proof -
  assume s: "settled self"
  from settled_cursor [OF s] obtain c
    where c: "ordered_cursor self c" "self = moved self c (position c) (state self)"
    by blast
  from s have "settled (moved self c (position c) (state self))"
    using c(2) by simp
  from real_next_settled [OF c(1) this] show ?thesis
    using c(2) by simp
qed

lemma real_prev_settles: "settled self \<Longrightarrow> settled (snd (real_prev self))"
proof -
  assume s: "settled self"
  from settled_cursor [OF s] obtain c
    where c: "ordered_cursor self c" "self = moved self c (position c) (state self)"
    by blast
  from s have "settled (moved self c (position c) (state self))"
    using c(2) by simp
  from real_prev_settled [OF c(1) this] show ?thesis
    using c(2) by simp
qed

lemma step_keeps_order:
  assumes inv: "case iter self of
                  None \<Rightarrow> True
                | Some c \<Rightarrow> ordered_entries self c \<and> (cursor_status c = StatusOK \<longrightarrow> settled self)"
    and keeps: "keeps_store self s'"
    and settles: "settled self \<Longrightarrow> settled s'"
  shows "case iter s' of
           None \<Rightarrow> True
         | Some c' \<Rightarrow> ordered_entries s' c' \<and> (cursor_status c' = StatusOK \<longrightarrow> settled s')"
proof (cases "iter s'")
  case None
  then show ?thesis by simp
next
  case (Some c')
  with keeps obtain c where c: "iter self = Some c" "entries c' = entries c"
    "ordering c' = ordering c" "cursor_status c' = cursor_status c"
    and cmp: "comparator s' = comparator self"
    by (auto simp: keeps_store_def split: option.splits)
  from inv c(1) have "ordered_entries self c"
    and "cursor_status c = StatusOK \<Longrightarrow> settled self"
    by simp_all
  with c cmp settles Some show ?thesis
    by (simp add: ordered_entries_def)
qed

lemma traversal_keeps_order:
  "traversal self \<Longrightarrow>
   (case iter self of
      None \<Rightarrow> True
    | Some c \<Rightarrow> ordered_entries self c \<and> (cursor_status c = StatusOK \<longrightarrow> settled self))"
proof (induction rule: traversal.induct)
  case (at_start self)
  then show ?case
    by (auto simp: cursor_agrees_def settled_def ordered_store_def ordered_cursor_def
        split: option.splits)
next
  case (after_next self)
  show ?case
  proof (cases "direction self")
    case FORWARD
    then have "Iterator_next self = real_next self"
      by (simp add: Iterator_next_def)
    then show ?thesis
      by (simp only:) (rule step_keeps_order [OF after_next.IH real_next_keeps real_next_settles])
  next
    case REVERSE
    then have "Iterator_next self = real_prev self"
      by (simp add: Iterator_next_def)
    then show ?thesis
      by (simp only:) (rule step_keeps_order [OF after_next.IH real_prev_keeps real_prev_settles])
  qed
next
  case (after_prev self)
  show ?case
  proof (cases "direction self")
    case FORWARD
    then have "Iterator_prev self = real_prev self"
      by (simp add: Iterator_prev_def)
    then show ?thesis
      by (simp only:) (rule step_keeps_order [OF after_prev.IH real_prev_keeps real_prev_settles])
  next
    case REVERSE
    then have "Iterator_prev self = real_next self"
      by (simp add: Iterator_prev_def)
    then show ?thesis
      by (simp only:) (rule step_keeps_order [OF after_prev.IH real_next_keeps real_next_settles])
  qed
qed

lemma step_direction:
  "real_next s = (out, s') \<Longrightarrow> direction s' = direction s"
  "real_prev s = (out, s') \<Longrightarrow> direction s' = direction s"
  using real_next_keeps [of s] real_prev_keeps [of s] by (auto simp: keeps_store_def)

text \<open>The round trips of the physical steps, at every point of a traversal.\<close>

lemma physical_round_trip:
  assumes "traversal self"
  shows "(\<forall>x s1. real_next self = (Return x, s1) \<longrightarrow> fst (real_prev s1) = Return x) \<and>
         (\<forall>y s1. real_prev self = (Return y, s1) \<longrightarrow> fst (real_next s1) = Return y) \<and>
         (\<forall>x s1 s2. real_next self = (Return x, s1) \<and> real_next s1 = (StopIteration, s2) \<and>
                    \<not> on_start_key s1 \<longrightarrow> fst (real_prev s2) = Return x) \<and>
         (\<forall>y s1 s2. real_prev self = (Return y, s1) \<and> real_prev s1 = (StopIteration, s2) \<longrightarrow>
                    fst (real_next s2) = Return y)"
proof (cases "iter self")
  case None
  then show ?thesis by (simp add: real_next_closed real_prev_closed)
next
  case (Some c)
  show ?thesis
  proof (cases "cursor_status c = StatusOK")
    case False
    from real_next_no_return [OF Some False] real_prev_no_return [OF Some False]
    have "\<And>x s1. real_next self \<noteq> (Return x, s1)" "\<And>y s1. real_prev self \<noteq> (Return y, s1)"
      by (metis fst_conv)+
    then show ?thesis by simp
  next
    case True
    from traversal_keeps_order [OF assms] Some True have s: "settled self"
      by simp
    from settled_cursor [OF s] obtain c'
      where oc: "ordered_cursor self c'" and here: "self = moved self c' (position c') (state self)"
      by blast
    from s here have st: "settled (moved self c' (position c') (state self))" by simp
    show ?thesis
      using real_next_then_prev [OF oc st] real_prev_then_next [OF oc st]
        real_next_ends_then_prev [OF oc st] real_prev_ends_then_next [OF oc st] here
      by simp
  qed
qed

lemma traversal_abc_iterator: "traversal abc_iterator"
proof (rule traversal.at_start)
  show "cursor_agrees abc_iterator"
    by (simp add: cursor_agrees_def ordered_entries_def abc_iterator_def NewIterator_def
        abc_engine_def total_order_bytewise fun_eq_iff)
qed

text \<open>
  A traversal can also start after an explicit \<open>seek\<close>, once a call has left the
  cursor on an entry within the bounds: on the iterator from \<open>b\<close> to \<open>c\<close>, after
  \<open>seek(b"a")\<close> and the \<open>next()\<close> that returns \<open>b\<close>.
\<close>

lemma traversal_after_seek:
  "traversal (snd (Iterator_next (snd (seek bc_iterator [0x61]))))"
proof (rule traversal.at_start)
  show "cursor_agrees (snd (Iterator_next (snd (seek bc_iterator [0x61]))))"
    by (simp add: cursor_agrees_def ordered_entries_def seek_def seek_target_def
        Iterator_next_def real_next_def real_next_check_def real_next_position_def
        bc_iterator_def abc_iterator_def NewIterator_def abc_engine_def Seek_def Valid_def
        cursor_key_def cursor_entry_def raise_for_status_def current_def key_from_def
        within_bounds_def within_start_def within_stop_def total_order_bytewise fun_eq_iff
        Let_def)
qed

text \<open>
  Claim C2, for the traversals that \<open>next()\<close> and \<open>prev()\<close> continue from a point
  where the cursor agrees with the bounds.  At every point of such a traversal: when
  \<open>next()\<close> returns an entry, the \<open>prev()\<close> that follows returns the same entry, and
  when \<open>prev()\<close> returns an entry, the \<open>next()\<close> that follows returns the same entry;
  and when the call after one that returned an entry ends the sequence instead, the call
  back that follows returns that entry again.  One case is left open: the sequence has
  ended after a physical-next step that returned an entry whose key is the start key
  (lemma \<open>round_trip_ends_at_inclusive_start\<close> is an instance).
\<close>

theorem next_prev_round_trip:
  assumes "traversal self"
  shows "(\<forall>x s1. Iterator_next self = (Return x, s1) \<longrightarrow> fst (Iterator_prev s1) = Return x) \<and>
         (\<forall>y s1. Iterator_prev self = (Return y, s1) \<longrightarrow> fst (Iterator_next s1) = Return y) \<and>
         (\<forall>x s1 s2. Iterator_next self = (Return x, s1) \<and>
                    Iterator_next s1 = (StopIteration, s2) \<and>
                    \<not> (direction self = FORWARD \<and> on_start_key s1) \<longrightarrow>
                    fst (Iterator_prev s2) = Return x) \<and>
         (\<forall>y s1 s2. Iterator_prev self = (Return y, s1) \<and>
                    Iterator_prev s1 = (StopIteration, s2) \<and>
                    \<not> (direction self = REVERSE \<and> on_start_key s1) \<longrightarrow>
                    fst (Iterator_next s2) = Return y)"
proof -
  note phys = physical_round_trip [OF assms]
  show ?thesis
  proof (cases "direction self")
    case FORWARD
    have fw: "\<And>s. direction s = FORWARD \<Longrightarrow>
        Iterator_next s = real_next s \<and> Iterator_prev s = real_prev s"
      by (simp add: Iterator_next_def Iterator_prev_def)
    show ?thesis
    proof (intro conjI allI impI)
      fix x s1
      assume "Iterator_next self = (Return x, s1)"
      then have r: "real_next self = (Return x, s1)" using fw [OF FORWARD] by simp
      then have "direction s1 = FORWARD" using step_direction(1) FORWARD by simp
      with phys r show "fst (Iterator_prev s1) = Return x" using fw by simp
    next
      fix y s1
      assume "Iterator_prev self = (Return y, s1)"
      then have r: "real_prev self = (Return y, s1)" using fw [OF FORWARD] by simp
      then have "direction s1 = FORWARD" using step_direction(2) FORWARD by simp
      with phys r show "fst (Iterator_next s1) = Return y" using fw by simp
    next
      fix x s1 s2
      assume a: "Iterator_next self = (Return x, s1) \<and> Iterator_next s1 = (StopIteration, s2) \<and>
          \<not> (direction self = FORWARD \<and> on_start_key s1)"
      then have r1: "real_next self = (Return x, s1)" using fw [OF FORWARD] by simp
      then have d1: "direction s1 = FORWARD" using step_direction(1) FORWARD by simp
      with a have r2: "real_next s1 = (StopIteration, s2)" using fw by simp
      then have d2: "direction s2 = FORWARD" using step_direction(1) d1 by simp
      from a FORWARD have "\<not> on_start_key s1" by simp
      with phys r1 r2 have "fst (real_prev s2) = Return x" by blast
      then show "fst (Iterator_prev s2) = Return x" using fw [OF d2] by simp
    next
      fix y s1 s2
      assume a: "Iterator_prev self = (Return y, s1) \<and> Iterator_prev s1 = (StopIteration, s2) \<and>
          \<not> (direction self = REVERSE \<and> on_start_key s1)"
      then have r1: "real_prev self = (Return y, s1)" using fw [OF FORWARD] by simp
      then have d1: "direction s1 = FORWARD" using step_direction(2) FORWARD by simp
      with a have r2: "real_prev s1 = (StopIteration, s2)" using fw by simp
      then have d2: "direction s2 = FORWARD" using step_direction(2) d1 by simp
      from phys r1 r2 have "fst (real_next s2) = Return y" by blast
      then show "fst (Iterator_next s2) = Return y" using fw [OF d2] by simp
    qed
  next
    case REVERSE
    have rv: "\<And>s. direction s = REVERSE \<Longrightarrow>
        Iterator_next s = real_prev s \<and> Iterator_prev s = real_next s"
      by (simp add: Iterator_next_def Iterator_prev_def)
    show ?thesis
    proof (intro conjI allI impI)
      fix x s1
      assume "Iterator_next self = (Return x, s1)"
      then have r: "real_prev self = (Return x, s1)" using rv [OF REVERSE] by simp
      then have "direction s1 = REVERSE" using step_direction(2) REVERSE by simp
      with phys r show "fst (Iterator_prev s1) = Return x" using rv by simp
    next
      fix y s1
      assume "Iterator_prev self = (Return y, s1)"
      then have r: "real_next self = (Return y, s1)" using rv [OF REVERSE] by simp
      then have "direction s1 = REVERSE" using step_direction(1) REVERSE by simp
      with phys r show "fst (Iterator_next s1) = Return y" using rv by simp
    next
      fix x s1 s2
      assume a: "Iterator_next self = (Return x, s1) \<and> Iterator_next s1 = (StopIteration, s2) \<and>
          \<not> (direction self = FORWARD \<and> on_start_key s1)"
      then have r1: "real_prev self = (Return x, s1)" using rv [OF REVERSE] by simp
      then have d1: "direction s1 = REVERSE" using step_direction(2) REVERSE by simp
      with a have r2: "real_prev s1 = (StopIteration, s2)" using rv by simp
      then have d2: "direction s2 = REVERSE" using step_direction(2) d1 by simp
      from phys r1 r2 have "fst (real_next s2) = Return x" by blast
      then show "fst (Iterator_prev s2) = Return x" using rv [OF d2] by simp
    next
      fix y s1 s2
      assume a: "Iterator_prev self = (Return y, s1) \<and> Iterator_prev s1 = (StopIteration, s2) \<and>
          \<not> (direction self = REVERSE \<and> on_start_key s1)"
      then have r1: "real_next self = (Return y, s1)" using rv [OF REVERSE] by simp
      then have d1: "direction s1 = REVERSE" using step_direction(1) REVERSE by simp
      with a have r2: "real_next s1 = (StopIteration, s2)" using rv by simp
      then have d2: "direction s2 = REVERSE" using step_direction(1) d1 by simp
      from a REVERSE have "\<not> on_start_key s1" by simp
      with phys r1 r2 have "fst (real_prev s2) = Return y" by blast
      then show "fst (Iterator_next s2) = Return y" using rv [OF d2] by simp
    qed
  qed
qed

theorem next_prev_round_trip_witness:
  "fst (Iterator_next abc_iterator) = Return (KeyValue [0x61] [0x31]) \<and>
   fst (Iterator_prev (snd (Iterator_next abc_iterator))) = Return (KeyValue [0x61] [0x31]) \<and>
   fst (Iterator_next (snd (Iterator_prev (snd (Iterator_next abc_iterator))))) =
     Return (KeyValue [0x61] [0x31]) \<and>
   fst (Iterator_next (snd (Iterator_next (snd (Iterator_next abc_iterator))))) =
     Return (KeyValue [0x63] [0x33]) \<and>
   fst (Iterator_next (snd (Iterator_next (snd (Iterator_next (snd (Iterator_next
     abc_iterator))))))) = StopIteration \<and>
   fst (Iterator_prev (snd (Iterator_next (snd (Iterator_next (snd (Iterator_next (snd
     (Iterator_next abc_iterator))))))))) = Return (KeyValue [0x63] [0x33]) \<and>
   fst (Iterator_next (snd (Iterator_next (snd (seek bc_iterator [0x61]))))) =
     Return (KeyValue [0x63] [0x33]) \<and>
   fst (Iterator_prev (snd (Iterator_next (snd (Iterator_next (snd (seek bc_iterator
     [0x61]))))))) = Return (KeyValue [0x63] [0x33])"
proof -
  let ?p = "snd (Iterator_next (snd (seek bc_iterator [0x61])))"
  have sn: "fst (Iterator_next ?p) = Return (KeyValue [0x63] [0x33])"
    by code_simp
  then have "Iterator_next ?p = (Return (KeyValue [0x63] [0x33]), snd (Iterator_next ?p))"
    by (simp add: prod_eq_iff)
  with next_prev_round_trip [OF traversal_after_seek]
  have sp: "fst (Iterator_prev (snd (Iterator_next ?p))) = Return (KeyValue [0x63] [0x33])"
    by blast
  let ?s1 = "snd (Iterator_next abc_iterator)"
  let ?s2 = "snd (Iterator_prev ?s1)"
  let ?sb = "snd (Iterator_next ?s1)"
  let ?sc = "snd (Iterator_next ?sb)"
  let ?se = "snd (Iterator_next ?sc)"
  have n: "fst (Iterator_next abc_iterator) = Return (KeyValue [0x61] [0x31])"
    by code_simp
  then have n': "Iterator_next abc_iterator = (Return (KeyValue [0x61] [0x31]), ?s1)"
    by (simp add: prod_eq_iff)
  have p: "fst (Iterator_prev ?s1) = Return (KeyValue [0x61] [0x31])"
    using next_prev_round_trip [OF traversal_abc_iterator] n' by blast
  then have p': "Iterator_prev ?s1 = (Return (KeyValue [0x61] [0x31]), ?s2)"
    by (simp add: prod_eq_iff)
  have t1: "traversal ?s1"
    using traversal_abc_iterator by (rule traversal.after_next)
  from next_prev_round_trip [OF this] p'
  have back_again: "fst (Iterator_next ?s2) = Return (KeyValue [0x61] [0x31])" by blast
  have tb: "traversal ?sb"
    using t1 by (rule traversal.after_next)
  have c: "fst (Iterator_next ?sb) = Return (KeyValue [0x63] [0x33])"
    by code_simp
  then have c': "Iterator_next ?sb = (Return (KeyValue [0x63] [0x33]), ?sc)"
    by (simp add: prod_eq_iff)
  have e: "fst (Iterator_next ?sc) = StopIteration"
    by code_simp
  then have e': "Iterator_next ?sc = (StopIteration, ?se)"
    by (simp add: prod_eq_iff)
  have off: "\<not> (direction ?sb = FORWARD \<and> on_start_key ?sc)"
    by code_simp
  from next_prev_round_trip [OF tb, THEN conjunct2, THEN conjunct2, THEN conjunct1,
      rule_format, of "KeyValue [0x63] [0x33]" ?sc ?se] c' e' off
  have "fst (Iterator_prev ?se) = Return (KeyValue [0x63] [0x33])" by blast
  with n p back_again c e sn sp show ?thesis by simp
qed

text \<open>
  The case that is left open, at the store with the single entry \<open>a\<close> and the forward
  iterator with \<open>start = a\<close> and \<open>include_start\<close> true: \<open>next()\<close> returns \<open>a\<close> and leaves
  the cursor on the start key, the next \<open>next()\<close> ends the sequence, and the \<open>prev()\<close>
  that follows ends it too.
\<close>

lemma round_trip_ends_at_inclusive_start:
  "fst (Iterator_next a_forward) = Return (KeyValue [0x61] [0x31]) \<and>
   on_start_key (snd (Iterator_next a_forward)) \<and>
   fst (Iterator_next (snd (Iterator_next a_forward))) = StopIteration \<and>
   fst (Iterator_prev (snd (Iterator_next (snd (Iterator_next a_forward))))) = StopIteration"
  by code_simp

text \<open>
  Claim C2 as stated fails after an explicit seek.  Over the entries \<open>a\<close>, \<open>b\<close>, \<open>c\<close> with
  \<open>start = a\<close> excluded, \<open>seek(a)\<close> followed by \<open>next()\<close> yields \<open>a\<close>; at that point
  \<open>prev()\<close> yields \<open>a\<close> again, and the \<open>next()\<close> after it yields \<open>b\<close>.
\<close>

theorem prev_then_next_after_seek_counterexample:
  "fst (Iterator_next after_a_seek) = Return (KeyValue [0x61] [0x31]) \<and>
   fst (Iterator_prev after_a_seek_next) = Return (KeyValue [0x61] [0x31]) \<and>
   fst (Iterator_next (snd (Iterator_prev after_a_seek_next))) = Return (KeyValue [0x62] [0x32]) \<and>
   fst (Iterator_next (snd (Iterator_prev after_a_seek_next))) \<noteq>
     fst (Iterator_prev after_a_seek_next)"
  by code_simp

section \<open>Closing the store handle\<close>

lemma abc_iterator_constructed:
  "Iterator_init 1 abc_DB None False None None True False None True True None =
     Inr (abc_iterator, abc_DB_registered)"
  by (simp add: Iterator_init_def abc_DB_def abc_engine_def abc_iterator_def
      abc_DB_registered_def NewIterator_def seek_to_start_def raise_for_status_def
      DB_register_iterator_def fun_eq_iff)

lemma close_iterators_events:
  "close_iterators ids h = (h', evs) \<Longrightarrow>
   evs = map Iterator_closed (filter (\<lambda>i. h i \<noteq> None) ids) \<and>
   (\<forall>i. (h' i = None) = (h i = None)) \<and>
   (\<forall>i it. i \<in> set ids \<and> h' i = Some it \<longrightarrow> iter it = None) \<and>
   (\<forall>i. i \<notin> set ids \<longrightarrow> h' i = h i)"
proof (induction ids arbitrary: h h' evs)
  case Nil
  then show ?case by simp
next
  case (Cons ident ids)
  show ?case
  proof (cases "h ident")
    case None
    with Cons.prems have "close_iterators ids h = (h', evs)" by simp
    note IH = Cons.IH [OF this]
    have 1: "evs = map Iterator_closed (filter (\<lambda>i. h i \<noteq> None) (ident # ids))"
      using IH None by simp
    have 3: "\<forall>i it'. i \<in> set (ident # ids) \<and> h' i = Some it' \<longrightarrow> iter it' = None"
    proof (intro allI impI)
      fix i it'
      assume a: "i \<in> set (ident # ids) \<and> h' i = Some it'"
      have "h' ident = None" using IH None by simp
      with a have "i \<in> set ids" by auto
      with a IH show "iter it' = None" by blast
    qed
    have 4: "\<forall>i. i \<notin> set (ident # ids) \<longrightarrow> h' i = h i"
      using IH by auto
    from 1 3 4 IH show ?thesis by blast
  next
    case (Some it)
    obtain h1 ev1 where r: "close_iterators ids (h(ident \<mapsto> Iterator_close it)) = (h1, ev1)"
      by (cases "close_iterators ids (h(ident \<mapsto> Iterator_close it))") auto
    with Cons.prems Some have eq: "h' = h1" "evs = Iterator_closed ident # ev1" by auto
    have closed: "iter (Iterator_close it) = None"
      by (simp add: Iterator_close_def split: option.splits)
    note IH = Cons.IH [OF r]
    have 1: "evs = map Iterator_closed (filter (\<lambda>i. h i \<noteq> None) (ident # ids))"
    proof -
      have "filter (\<lambda>i. (h(ident \<mapsto> Iterator_close it)) i \<noteq> None) ids = filter (\<lambda>i. h i \<noteq> None) ids"
        using Some by (intro filter_cong) auto
      then show ?thesis using IH eq Some by simp
    qed
    have 2: "\<forall>i. (h' i = None) = (h i = None)"
      using IH eq Some by (auto split: if_splits)
    have 3: "\<forall>i it'. i \<in> set (ident # ids) \<and> h' i = Some it' \<longrightarrow> iter it' = None"
    proof (intro allI impI)
      fix i it'
      assume a: "i \<in> set (ident # ids) \<and> h' i = Some it'"
      show "iter it' = None"
      proof (cases "i \<in> set ids")
        case True
        then show ?thesis using IH a eq by blast
      next
        case False
        then have "i = ident" using a by simp
        moreover have "h1 i = (h(ident \<mapsto> Iterator_close it)) i" using IH False by blast
        ultimately show ?thesis using a eq closed by simp
      qed
    qed
    have 4: "\<forall>i. i \<notin> set (ident # ids) \<longrightarrow> h' i = h i"
      using IH eq by auto
    from 1 2 3 4 show ?thesis by blast
  qed
qed

lemma comparator_release_events:
  "Comparator_released \<in> set (case oc of
       Some (PlyvelCallbackComparator name f) \<Rightarrow> [Comparator_released]
     | _ \<Rightarrow> []) \<longleftrightarrow>
   (\<exists>name f. oc = Some (PlyvelCallbackComparator name f))"
proof (cases oc)
  case None
  then show ?thesis by simp
next
  case (Some cmp)
  then show ?thesis by (cases cmp) simp_all
qed

lemma sorted_iterator_phase:
  "sorted (map (close_phase \<circ> Iterator_closed) xs)"
  by (induction xs) simp_all


lemma close_registered_simps:
  "snd (snd (close_registered self h)) =
     (case iterators self of
        None \<Rightarrow> []
      | Some ids \<Rightarrow> map Iterator_closed (filter (\<lambda>i. h i \<noteq> None) ids))"
  "fst (snd (close_registered self h)) =
     (case iterators self of None \<Rightarrow> h | Some ids \<Rightarrow> fst (close_iterators ids h))"
  "db_ptr (fst (close_registered self h)) = db_ptr self"
  "options (fst (close_registered self h)) = options self"
  "iterators (fst (close_registered self h)) = map_option (\<lambda>ids. []) (iterators self)"
proof -
  have "\<And>ids. snd (close_iterators ids h) = map Iterator_closed (filter (\<lambda>i. h i \<noteq> None) ids)"
    using close_iterators_events by (metis prod.collapse)
  then show "snd (snd (close_registered self h)) =
     (case iterators self of
        None \<Rightarrow> []
      | Some ids \<Rightarrow> map Iterator_closed (filter (\<lambda>i. h i \<noteq> None) ids))"
    by (simp add: close_registered_def case_prod_beta split: option.splits)
qed (simp_all add: close_registered_def case_prod_beta split: option.splits)

lemma close_engine_simps:
  "snd (close_engine d) = (if db_ptr d = None then [] else [Engine_closed])"
  "db_ptr (fst (close_engine d)) = None"
  "options (fst (close_engine d)) = options d"
  "iterators (fst (close_engine d)) = iterators d"
  by (simp_all add: close_engine_def split: option.splits)

lemma release_block_cache_simps:
  "snd (release_block_cache d) =
     (if block_cache (options d) = None then [] else [Block_cache_released])"
  "db_ptr (fst (release_block_cache d)) = db_ptr d"
  "block_cache (options (fst (release_block_cache d))) = None"
  "filter_policy (options (fst (release_block_cache d))) = filter_policy (options d)"
  "opt_comparator (options (fst (release_block_cache d))) = opt_comparator (options d)"
  "iterators (fst (release_block_cache d)) = iterators d"
  by (simp_all add: release_block_cache_def split: option.splits)

lemma release_filter_policy_simps:
  "snd (release_filter_policy d) =
     (if filter_policy (options d) = None then [] else [Filter_policy_released])"
  "db_ptr (fst (release_filter_policy d)) = db_ptr d"
  "block_cache (options (fst (release_filter_policy d))) = block_cache (options d)"
  "filter_policy (options (fst (release_filter_policy d))) = None"
  "opt_comparator (options (fst (release_filter_policy d))) = opt_comparator (options d)"
  "iterators (fst (release_filter_policy d)) = iterators d"
  by (simp_all add: release_filter_policy_def split: option.splits)

lemma release_comparator_simps:
  "snd (release_comparator d) =
     (case opt_comparator (options d) of
        Some (PlyvelCallbackComparator name f) \<Rightarrow> [Comparator_released]
      | _ \<Rightarrow> [])"
  "db_ptr (fst (release_comparator d)) = db_ptr d"
  "block_cache (options (fst (release_comparator d))) = block_cache (options d)"
  "filter_policy (options (fst (release_comparator d))) = filter_policy (options d)"
  "opt_comparator (options (fst (release_comparator d))) =
     (case opt_comparator (options d) of
        Some BytewiseComparator \<Rightarrow> Some BytewiseComparator
      | _ \<Rightarrow> None)"
  "iterators (fst (release_comparator d)) = iterators d"
  by (simp_all add: release_comparator_def split: option.splits Comparator.splits)

lemmas DB_close_steps =
  close_registered_simps close_engine_simps release_block_cache_simps
  release_filter_policy_simps release_comparator_simps

lemma DB_close_events:
  "snd (snd (DB_close self h)) =
     (case iterators self of
        None \<Rightarrow> []
      | Some ids \<Rightarrow> map Iterator_closed (filter (\<lambda>i. h i \<noteq> None) ids)) @
     (if db_ptr self = None then [] else [Engine_closed]) @
     (if block_cache (options self) = None then [] else [Block_cache_released]) @
     (if filter_policy (options self) = None then [] else [Filter_policy_released]) @
     (case opt_comparator (options self) of
        Some (PlyvelCallbackComparator name f) \<Rightarrow> [Comparator_released]
      | _ \<Rightarrow> [])"
  by (simp add: DB_close_def case_prod_beta Let_def DB_close_steps)

lemma DB_close_heap:
  "fst (snd (DB_close self h)) =
     (case iterators self of None \<Rightarrow> h | Some ids \<Rightarrow> fst (close_iterators ids h))"
  by (simp add: DB_close_def case_prod_beta Let_def DB_close_steps)

lemma DB_close_handle:
  "db_ptr (fst (DB_close self h)) = None \<and>
   block_cache (options (fst (DB_close self h))) = None \<and>
   filter_policy (options (fst (DB_close self h))) = None \<and>
   opt_comparator (options (fst (DB_close self h))) =
     (case opt_comparator (options self) of
        Some BytewiseComparator \<Rightarrow> Some BytewiseComparator
      | _ \<Rightarrow> None) \<and>
   iterators (fst (DB_close self h)) = map_option (\<lambda>ids. []) (iterators self)"
  by (simp add: DB_close_def case_prod_beta Let_def DB_close_steps)


text \<open>
  Claim C4, as the code has it.  \<open>DB.close\<close> first calls \<open>close()\<close> on every iterator of
  the weak registry that is still alive, which leaves each of them closed; then it
  closes the engine connection, if the store is open; and only then does it release
  the option resources that exist: the block cache, the filter policy and a callback
  comparator.  The built-in \<open>BytewiseComparator\<close> is never released and stays in the
  options.  Afterwards the store is closed.
\<close>

theorem DB_close_order:
  assumes "DB_close self h = (self', h', evs)"
  shows "sorted (map close_phase evs) \<and>
         (\<forall>i. Iterator_closed i \<in> set evs \<longleftrightarrow>
               (\<exists>ids. iterators self = Some ids \<and> i \<in> set ids \<and> h i \<noteq> None)) \<and>
         (\<forall>ids i it. iterators self = Some ids \<and> i \<in> set ids \<and> h' i = Some it
               \<longrightarrow> iter it = None) \<and>
         (Engine_closed \<in> set evs \<longleftrightarrow> db_ptr self \<noteq> None) \<and>
         (Block_cache_released \<in> set evs \<longleftrightarrow> block_cache (options self) \<noteq> None) \<and>
         (Filter_policy_released \<in> set evs \<longleftrightarrow> filter_policy (options self) \<noteq> None) \<and>
         (Comparator_released \<in> set evs \<longleftrightarrow>
            (\<exists>name f. opt_comparator (options self) = Some (PlyvelCallbackComparator name f))) \<and>
         (opt_comparator (options self) = Some BytewiseComparator \<longrightarrow>
            opt_comparator (options self') = Some BytewiseComparator) \<and>
         db_ptr self' = None"
proof -
  have evs: "evs = snd (snd (DB_close self h))" and h': "h' = fst (snd (DB_close self h))"
    and self': "self' = fst (DB_close self h)"
    using assms by simp_all
  note ev = evs [unfolded DB_close_events]
  have 1: "sorted (map close_phase evs)"
    unfolding ev
    by (auto simp: sorted_append sorted_iterator_phase split: option.splits Comparator.splits)
  have 2: "\<forall>i. Iterator_closed i \<in> set evs \<longleftrightarrow>
               (\<exists>ids. iterators self = Some ids \<and> i \<in> set ids \<and> h i \<noteq> None)"
  proof (cases "iterators self")
    case None
    then show ?thesis
      unfolding ev by (auto split: option.splits Comparator.splits)
  next
    case (Some ids)
    then show ?thesis
      unfolding ev by (auto split: option.splits Comparator.splits)
  qed
  have 3: "\<forall>ids i it. iterators self = Some ids \<and> i \<in> set ids \<and> h' i = Some it
               \<longrightarrow> iter it = None"
  proof (intro allI impI)
    fix ids i it
    assume a: "iterators self = Some ids \<and> i \<in> set ids \<and> h' i = Some it"
    then have "h' = fst (close_iterators ids h)"
      using h' by (simp add: DB_close_heap)
    then have "close_iterators ids h = (h', snd (close_iterators ids h))"
      by simp
    from close_iterators_events [OF this] a show "iter it = None" by blast
  qed
  have 4: "Engine_closed \<in> set evs \<longleftrightarrow> db_ptr self \<noteq> None"
    unfolding ev by (auto split: option.splits Comparator.splits)
  have 5: "Block_cache_released \<in> set evs \<longleftrightarrow> block_cache (options self) \<noteq> None"
    unfolding ev by (auto split: option.splits Comparator.splits)
  have 6: "Filter_policy_released \<in> set evs \<longleftrightarrow> filter_policy (options self) \<noteq> None"
    unfolding ev by (auto split: option.splits Comparator.splits)
  have 7: "Comparator_released \<in> set evs \<longleftrightarrow>
            (\<exists>name f. opt_comparator (options self) = Some (PlyvelCallbackComparator name f))"
  proof -
    have "Comparator_released \<in> set evs \<longleftrightarrow>
        Comparator_released \<in> set (case opt_comparator (options self) of
            Some (PlyvelCallbackComparator name f) \<Rightarrow> [Comparator_released]
          | _ \<Rightarrow> [])"
      unfolding ev by (cases "iterators self") auto
    then show ?thesis by (simp only: comparator_release_events)
  qed
  have 8: "opt_comparator (options self) = Some BytewiseComparator \<longrightarrow>
            opt_comparator (options self') = Some BytewiseComparator"
    using DB_close_handle [of self h] self' by simp
  have 9: "db_ptr self' = None"
    using DB_close_handle [of self h] self' by simp
  from 1 2 3 4 5 6 7 8 9 show ?thesis by blast
qed

lemma abc_close_events:
  "DB_close abc_DB_registered abc_heap =
     (fst (DB_close abc_DB_registered abc_heap), fst (snd (DB_close abc_DB_registered abc_heap)),
      [Iterator_closed 1, Engine_closed, Block_cache_released, Filter_policy_released])"
proof -
  have "snd (snd (DB_close abc_DB_registered abc_heap)) =
      [Iterator_closed 1, Engine_closed, Block_cache_released, Filter_policy_released]"
    by (simp add: DB_close_events abc_DB_registered_def abc_DB_def abc_heap_def)
  then show ?thesis by (metis prod.collapse)
qed

theorem DB_close_order_witness:
  "snd (snd (DB_close abc_DB_registered abc_heap)) =
     [Iterator_closed 1, Engine_closed, Block_cache_released, Filter_policy_released] \<and>
   sorted (map close_phase (snd (snd (DB_close abc_DB_registered abc_heap)))) \<and>
   db_ptr (fst (DB_close abc_DB_registered abc_heap)) = None \<and>
   opt_comparator (options (fst (DB_close abc_DB_registered abc_heap))) = Some BytewiseComparator"
proof -
  have "opt_comparator (options abc_DB_registered) = Some BytewiseComparator"
    by (simp add: abc_DB_registered_def abc_DB_def)
  with DB_close_order [OF abc_close_events] show ?thesis
    using abc_close_events by (metis snd_conv)
qed

text \<open>
  Claim C4 as stated has the engine connection closed last, after the option
  resources.  On the handle \<open>abc_DB_registered\<close> the code closes the engine before it
  releases the block cache, so its releases do not follow that ranking.
\<close>

theorem DB_close_engine_last_counterexample:
  "snd (snd (DB_close abc_DB_registered abc_heap)) =
     [Iterator_closed 1, Engine_closed, Block_cache_released, Filter_policy_released] \<and>
   \<not> sorted (map close_phase_engine_last (snd (snd (DB_close abc_DB_registered abc_heap))))"
proof -
  have "snd (snd (DB_close abc_DB_registered abc_heap)) =
      [Iterator_closed 1, Engine_closed, Block_cache_released, Filter_policy_released]"
    by (simp add: DB_close_events abc_DB_registered_def abc_DB_def abc_heap_def)
  then show ?thesis by simp
qed

section \<open>The write batch as a scope\<close>

lemma WriteBatch_exit_closed:
  assumes "db_ptr db_obj = None"
  shows "WriteBatch_exit wb db_obj exc = (Inl RuntimeError, wb, db_obj)"
  using assms by (simp add: WriteBatch_exit_def)

lemma WriteBatch_exit_commit:
  assumes "db_ptr db_obj = Some e" and "engine_status e = StatusOK"
    and "\<not> (transaction wb \<and> exc \<noteq> None)"
  shows "WriteBatch_exit wb db_obj exc =
           (Inr False, wb\<lparr>staged := []\<rparr>,
            db_obj\<lparr>db_ptr := Some (apply_batch e (staged wb))\<rparr>)"
  using assms
  by (auto simp: WriteBatch_exit_def WriteBatch_write_def WriteBatch_clear_def leveldb_Write_def
      raise_for_status_def)

lemma WriteBatch_exit_failed_write:
  assumes "db_ptr db_obj = Some e" and "raise_for_status (engine_status e) = Some err"
    and "\<not> (transaction wb \<and> exc \<noteq> None)"
  shows "WriteBatch_exit wb db_obj exc = (Inl err, wb, db_obj)"
proof -
  from assms(2) have "engine_status e \<noteq> StatusOK"
    by (auto simp: raise_for_status_def)
  with assms show ?thesis
    by (auto simp: WriteBatch_exit_def WriteBatch_write_def leveldb_Write_def)
qed

lemma WriteBatch_exit_rollback:
  assumes "db_ptr db_obj = Some e" and "transaction wb" and "exc \<noteq> None"
  shows "WriteBatch_exit wb db_obj exc = (Inr False, wb\<lparr>staged := []\<rparr>, db_obj)"
  using assms
  by (auto simp: WriteBatch_exit_def WriteBatch_clear_def)

lemma WriteBatch_write_applies:
  assumes "db_ptr db_obj = Some e" and "engine_status e = StatusOK"
  shows "WriteBatch_write wb db_obj = Inr (db_obj\<lparr>db_ptr := Some (apply_batch e (staged wb))\<rparr>)"
  using assms by (simp add: WriteBatch_write_def leveldb_Write_def raise_for_status_def)

lemma WriteBatch_write_fails:
  assumes "db_ptr db_obj = Some e" and "raise_for_status (engine_status e) = Some err"
  shows "WriteBatch_write wb db_obj = Inl err"
proof -
  from assms(2) have "engine_status e \<noteq> StatusOK"
    by (auto simp: raise_for_status_def)
  with assms show ?thesis
    by (simp add: WriteBatch_write_def leveldb_Write_def)
qed

lemma WriteBatch_clear_empties:
  assumes "db_ptr db_obj \<noteq> None"
  shows "WriteBatch_clear wb db_obj = Inr (wb\<lparr>staged := []\<rparr>)"
  using assms by (auto simp: WriteBatch_clear_def)

lemma raise_for_status_failure:
  "st \<noteq> StatusOK \<Longrightarrow> \<exists>err. raise_for_status st = Some err"
  by (simp add: raise_for_status_def)

text \<open>
  How the \<open>with\<close> statement ends, from how \<open>__exit__\<close> ends: once the scope is entered,
  the exception of \<open>__exit__\<close> reaches the caller if it raises one, and the exception
  that left the body otherwise.
\<close>

lemma with_WriteBatch_entered:
  assumes "db_ptr db_obj \<noteq> None" and "body wb db_obj = (exc, wb1, db1)"
  shows "with_WriteBatch wb db_obj body =
           (case WriteBatch_exit wb1 db1 exc of
              (Inl err, wb2, db2) \<Rightarrow> (Some err, wb2, db2)
            | (Inr suppress, wb2, db2) \<Rightarrow> ((if suppress then None else exc), wb2, db2))"
  using assms by (auto simp: with_WriteBatch_def WriteBatch_enter_def)

lemma with_WriteBatch_not_entered:
  assumes "db_ptr db_obj = None"
  shows "with_WriteBatch wb db_obj body = (Some RuntimeError, wb, db_obj)"
  using assms by (simp add: with_WriteBatch_def WriteBatch_enter_def)

text \<open>
  Claim C8, with the two guards of the code.  A \<open>WriteBatch\<close> used as a scoped context
  (on a closed store the scope is not entered: \<open>__enter__\<close> raises \<open>RuntimeError\<close>).
  When the store handle is still open as the scope is left: on a normal exit \<open>write()\<close>
  is called, and when the engine accepts the write the staged operations are applied,
  \<open>clear()\<close> is called next and empties the batch, and no exception reaches the caller,
  while when the engine rejects the write its error is raised, nothing is applied and
  \<open>clear()\<close> is not called; on an exit by a raised failure, with a batch in transaction
  mode, \<open>clear()\<close> is called and \<open>write()\<close> is not, so the store is left as it is, the
  batch is empty afterwards, and the failure that left the scope is the one that
  reaches the caller.  When the store handle has been closed before the scope is left,
  \<open>__exit__\<close> raises \<open>RuntimeError\<close> before it calls \<open>write()\<close> or \<open>clear()\<close>: the batch
  and the handle stay as they are and \<open>RuntimeError\<close> reaches the caller, whatever left
  the scope.
\<close>

theorem WriteBatch_scope_exit:
  assumes "body wb db_obj = (exc, wb1, db1)"
  shows "(db_ptr db_obj = None \<longrightarrow>
            with_WriteBatch wb db_obj body = (Some RuntimeError, wb, db_obj)) \<and>
         (db_ptr db_obj \<noteq> None \<and> db_ptr db1 = None \<longrightarrow>
            WriteBatch_exit wb1 db1 exc = (Inl RuntimeError, wb1, db1) \<and>
            with_WriteBatch wb db_obj body = (Some RuntimeError, wb1, db1)) \<and>
         (\<forall>e. db_ptr db_obj \<noteq> None \<and> db_ptr db1 = Some e \<and> exc = None \<and>
              engine_status e = StatusOK \<longrightarrow>
            WriteBatch_write wb1 db1 =
              Inr (db1\<lparr>db_ptr := Some (apply_batch e (staged wb1))\<rparr>) \<and>
            WriteBatch_clear wb1 (db1\<lparr>db_ptr := Some (apply_batch e (staged wb1))\<rparr>) =
              Inr (wb1\<lparr>staged := []\<rparr>) \<and>
            with_WriteBatch wb db_obj body =
              (None, wb1\<lparr>staged := []\<rparr>,
               db1\<lparr>db_ptr := Some (apply_batch e (staged wb1))\<rparr>)) \<and>
         (\<forall>e. db_ptr db_obj \<noteq> None \<and> db_ptr db1 = Some e \<and> exc = None \<and>
              engine_status e \<noteq> StatusOK \<longrightarrow>
            (\<exists>err. raise_for_status (engine_status e) = Some err \<and>
                   WriteBatch_write wb1 db1 = Inl err \<and>
                   with_WriteBatch wb db_obj body = (Some err, wb1, db1))) \<and>
         (db_ptr db_obj \<noteq> None \<and> db_ptr db1 \<noteq> None \<and> exc \<noteq> None \<and> transaction wb1 \<longrightarrow>
            WriteBatch_clear wb1 db1 = Inr (wb1\<lparr>staged := []\<rparr>) \<and>
            with_WriteBatch wb db_obj body = (exc, wb1\<lparr>staged := []\<rparr>, db1))"
proof (intro conjI impI allI)
  assume "db_ptr db_obj = None"
  then show "with_WriteBatch wb db_obj body = (Some RuntimeError, wb, db_obj)"
    by (rule with_WriteBatch_not_entered)
next
  assume a: "db_ptr db_obj \<noteq> None \<and> db_ptr db1 = None"
  then show x: "WriteBatch_exit wb1 db1 exc = (Inl RuntimeError, wb1, db1)"
    by (intro WriteBatch_exit_closed) simp
  show "with_WriteBatch wb db_obj body = (Some RuntimeError, wb1, db1)"
    using a assms by (simp add: with_WriteBatch_entered x)
next
  fix e
  assume a: "db_ptr db_obj \<noteq> None \<and> db_ptr db1 = Some e \<and> exc = None \<and>
      engine_status e = StatusOK"
  show "WriteBatch_write wb1 db1 =
      Inr (db1\<lparr>db_ptr := Some (apply_batch e (staged wb1))\<rparr>)"
    using a by (intro WriteBatch_write_applies) simp_all
  show "WriteBatch_clear wb1 (db1\<lparr>db_ptr := Some (apply_batch e (staged wb1))\<rparr>) =
      Inr (wb1\<lparr>staged := []\<rparr>)"
    by (intro WriteBatch_clear_empties) simp
  have "WriteBatch_exit wb1 db1 exc =
      (Inr False, wb1\<lparr>staged := []\<rparr>,
       db1\<lparr>db_ptr := Some (apply_batch e (staged wb1))\<rparr>)"
    using a by (intro WriteBatch_exit_commit) simp_all
  then show "with_WriteBatch wb db_obj body =
      (None, wb1\<lparr>staged := []\<rparr>,
       db1\<lparr>db_ptr := Some (apply_batch e (staged wb1))\<rparr>)"
    using a assms by (simp add: with_WriteBatch_entered)
next
  fix e
  assume a: "db_ptr db_obj \<noteq> None \<and> db_ptr db1 = Some e \<and> exc = None \<and>
      engine_status e \<noteq> StatusOK"
  then obtain err where err: "raise_for_status (engine_status e) = Some err"
    using raise_for_status_failure by blast
  have w: "WriteBatch_write wb1 db1 = Inl err"
    using a err by (intro WriteBatch_write_fails) simp_all
  have "WriteBatch_exit wb1 db1 exc = (Inl err, wb1, db1)"
    using a err by (intro WriteBatch_exit_failed_write) simp_all
  then have "with_WriteBatch wb db_obj body = (Some err, wb1, db1)"
    using a assms by (simp add: with_WriteBatch_entered)
  with err w show "\<exists>err. raise_for_status (engine_status e) = Some err \<and>
      WriteBatch_write wb1 db1 = Inl err \<and>
      with_WriteBatch wb db_obj body = (Some err, wb1, db1)"
    by blast
next
  assume a: "db_ptr db_obj \<noteq> None \<and> db_ptr db1 \<noteq> None \<and> exc \<noteq> None \<and> transaction wb1"
  then obtain e where e: "db_ptr db1 = Some e" by auto
  show "WriteBatch_clear wb1 db1 = Inr (wb1\<lparr>staged := []\<rparr>)"
    using a by (intro WriteBatch_clear_empties) simp
  have "WriteBatch_exit wb1 db1 exc = (Inr False, wb1\<lparr>staged := []\<rparr>, db1)"
    using a e by (intro WriteBatch_exit_rollback) simp_all
  then show "with_WriteBatch wb db_obj body = (exc, wb1\<lparr>staged := []\<rparr>, db1)"
    using a assms by (simp add: with_WriteBatch_entered)
qed

theorem WriteBatch_scope_exit_witness:
  "with_WriteBatch \<lparr>staged = [], batch_prefix = None, transaction = True\<rparr> abc_DB stage_d =
     (None, \<lparr>staged = [], batch_prefix = None, transaction = True\<rparr>,
      abc_DB\<lparr>db_ptr := Some abcd_engine\<rparr>) \<and>
   with_WriteBatch \<lparr>staged = [], batch_prefix = None, transaction = True\<rparr> abc_DB
       stage_d_then_fail =
     (Some (OtherException 7), \<lparr>staged = [], batch_prefix = None, transaction = True\<rparr>, abc_DB) \<and>
   with_WriteBatch \<lparr>staged = [], batch_prefix = None, transaction = True\<rparr> failing_DB stage_d =
     (Some IOError, \<lparr>staged = [Put [0x64] [0x34]], batch_prefix = None, transaction = True\<rparr>,
      failing_DB) \<and>
   with_WriteBatch \<lparr>staged = [], batch_prefix = None, transaction = False\<rparr> abc_DB
       stage_d_close_then_fail =
     (Some RuntimeError, \<lparr>staged = [Put [0x64] [0x34]], batch_prefix = None, transaction = False\<rparr>,
      fst (DB_close abc_DB no_iterators)) \<and>
   with_WriteBatch \<lparr>staged = [], batch_prefix = None, transaction = True\<rparr>
       (fst (DB_close abc_DB no_iterators)) stage_d =
     (Some RuntimeError, \<lparr>staged = [], batch_prefix = None, transaction = True\<rparr>,
      fst (DB_close abc_DB no_iterators))"
proof -
  let ?wb = "\<lparr>staged = [], batch_prefix = None, transaction = True\<rparr>"
  let ?wb1 = "\<lparr>staged = [Put [0x64] [0x34]], batch_prefix = None, transaction = True\<rparr>"
  let ?nb = "\<lparr>staged = [], batch_prefix = None, transaction = False\<rparr>"
  let ?nb1 = "\<lparr>staged = [Put [0x64] [0x34]], batch_prefix = None, transaction = False\<rparr>"
  let ?closed = "fst (DB_close abc_DB no_iterators)"
  have e: "db_ptr abc_DB = Some abc_engine" and f: "db_ptr failing_DB = Some failing_engine"
    by (simp_all add: abc_DB_def failing_DB_def)
  have closed: "db_ptr ?closed = None"
    by (simp add: DB_close_def close_registered_def close_engine_def release_block_cache_def
        release_filter_policy_def release_comparator_def abc_DB_def case_prod_beta Let_def)
  have b1: "stage_d ?wb abc_DB = (None, ?wb1, abc_DB)"
    by (simp add: stage_d_def WriteBatch_put_def abc_DB_def)
  have b2: "stage_d_then_fail ?wb abc_DB = (Some (OtherException 7), ?wb1, abc_DB)"
    by (simp add: stage_d_then_fail_def WriteBatch_put_def abc_DB_def)
  have b3: "stage_d ?wb failing_DB = (None, ?wb1, failing_DB)"
    by (simp add: stage_d_def WriteBatch_put_def failing_DB_def)
  have b4: "stage_d_close_then_fail ?nb abc_DB = (Some (OtherException 7), ?nb1, ?closed)"
    by (simp add: stage_d_close_then_fail_def WriteBatch_put_def abc_DB_def)
  obtain x1 x2 x3 where b5: "stage_d ?wb ?closed = (x1, x2, x3)"
    by (metis prod_cases3)
  have applied: "apply_batch abc_engine (staged ?wb1) = abcd_engine"
    by (simp add: apply_batch_def abc_engine_def abcd_engine_def)
  have ok: "engine_status abc_engine = StatusOK"
    and bad: "engine_status failing_engine \<noteq> StatusOK"
    and io: "raise_for_status (engine_status failing_engine) = Some IOError"
    by (simp_all add: abc_engine_def failing_engine_def raise_for_status_def)
  have "with_WriteBatch ?wb abc_DB stage_d =
      (None, ?wb, abc_DB\<lparr>db_ptr := Some abcd_engine\<rparr>)"
    using WriteBatch_scope_exit [where body = stage_d and wb = ?wb and db_obj = abc_DB, OF b1, THEN conjunct2, THEN conjunct2, THEN conjunct1,
        rule_format, of abc_engine] e ok applied
    by simp
  moreover have "with_WriteBatch ?wb abc_DB stage_d_then_fail =
      (Some (OtherException 7), ?wb, abc_DB)"
    using WriteBatch_scope_exit [where body = stage_d_then_fail and wb = ?wb and db_obj = abc_DB,
        OF b2, THEN conjunct2, THEN conjunct2, THEN conjunct2,
        THEN conjunct2] e
    by simp
  moreover have "with_WriteBatch ?wb failing_DB stage_d = (Some IOError, ?wb1, failing_DB)"
    using WriteBatch_scope_exit [where body = stage_d and wb = ?wb and db_obj = failing_DB, OF b3, THEN conjunct2, THEN conjunct2, THEN conjunct2,
        THEN conjunct1, rule_format, of failing_engine] f bad io
    by auto
  moreover have "with_WriteBatch ?nb abc_DB stage_d_close_then_fail =
      (Some RuntimeError, ?nb1, ?closed)"
    using WriteBatch_scope_exit [where body = stage_d_close_then_fail and wb = ?nb and
        db_obj = abc_DB, OF b4, THEN conjunct2, THEN conjunct1] e closed
    by simp
  moreover have "with_WriteBatch ?wb ?closed stage_d = (Some RuntimeError, ?wb, ?closed)"
    using WriteBatch_scope_exit [where body = stage_d and wb = ?wb and db_obj = ?closed, OF b5, THEN conjunct1] closed
    by simp
  ultimately show ?thesis by simp
qed

text \<open>
  Claim C8 as stated fails when the store handle is closed inside the scope, and when
  the engine rejects the write.  A batch in transaction mode on the store of \<open>a\<close>,
  \<open>b\<close>, \<open>c\<close>, with a scope body that stages a put, closes the store handle and then
  fails: \<open>RuntimeError\<close> reaches the caller in place of the failure that left the
  scope, and the batch still holds the staged put, so \<open>clear()\<close> has not emptied it.
  The same batch on a store whose engine reports an I/O error, with a scope body that
  stages a put and runs to its end: \<open>write()\<close> raises the engine's error, and the batch
  still holds the staged put, so \<open>clear()\<close> has not been called after \<open>write()\<close>.
\<close>

theorem WriteBatch_exit_closed_handle_counterexample:
  "fst (stage_d_close_then_fail \<lparr>staged = [], batch_prefix = None, transaction = True\<rparr> abc_DB) =
     Some (OtherException 7) \<and>
   with_WriteBatch \<lparr>staged = [], batch_prefix = None, transaction = True\<rparr> abc_DB
       stage_d_close_then_fail =
     (Some RuntimeError, \<lparr>staged = [Put [0x64] [0x34]], batch_prefix = None, transaction = True\<rparr>,
      fst (DB_close abc_DB no_iterators)) \<and>
   db_ptr (fst (DB_close abc_DB no_iterators)) = None \<and>
   fst (stage_d \<lparr>staged = [], batch_prefix = None, transaction = True\<rparr> failing_DB) = None \<and>
   with_WriteBatch \<lparr>staged = [], batch_prefix = None, transaction = True\<rparr> failing_DB stage_d =
     (Some IOError, \<lparr>staged = [Put [0x64] [0x34]], batch_prefix = None, transaction = True\<rparr>,
      failing_DB)"
  by (simp add: with_WriteBatch_def WriteBatch_enter_def WriteBatch_exit_def
      WriteBatch_write_def leveldb_Write_def raise_for_status_def
      stage_d_close_then_fail_def stage_d_def WriteBatch_put_def DB_close_def
      close_registered_def close_engine_def release_block_cache_def release_filter_policy_def
      release_comparator_def failing_DB_def failing_engine_def abc_DB_def abc_engine_def
      case_prod_beta Let_def)

text \<open>
  Claim C10, with the two guards of the code.  A \<open>WriteBatch\<close> created with transaction
  mode disabled and used as a scoped context (on a closed store the scope is not
  entered: \<open>__enter__\<close> raises \<open>RuntimeError\<close>), on an exit by a raised failure.  When the
  store handle is still open as the scope is left, \<open>write()\<close> is still called: when the
  engine accepts the write, the staged operations are applied to the store, \<open>clear()\<close>
  is called next and empties the batch, and only then does the failure that left the
  scope reach the caller; when the engine rejects the write, its error reaches the
  caller in place of the failure, nothing is applied and \<open>clear()\<close> is not called.  When
  the store handle has been closed before the scope is left, \<open>__exit__\<close> raises
  \<open>RuntimeError\<close> before it calls \<open>write()\<close>: the batch and the handle stay as they are
  and \<open>RuntimeError\<close> reaches the caller in place of the failure.
\<close>

theorem WriteBatch_scope_exit_without_transaction:
  assumes "body wb db_obj = (Some failure, wb1, db1)"
    and "\<not> transaction wb1"
  shows "(db_ptr db_obj = None \<longrightarrow>
            with_WriteBatch wb db_obj body = (Some RuntimeError, wb, db_obj)) \<and>
         (db_ptr db_obj \<noteq> None \<and> db_ptr db1 = None \<longrightarrow>
            WriteBatch_exit wb1 db1 (Some failure) = (Inl RuntimeError, wb1, db1) \<and>
            with_WriteBatch wb db_obj body = (Some RuntimeError, wb1, db1)) \<and>
         (\<forall>e. db_ptr db_obj \<noteq> None \<and> db_ptr db1 = Some e \<and> engine_status e = StatusOK \<longrightarrow>
            WriteBatch_write wb1 db1 =
              Inr (db1\<lparr>db_ptr := Some (apply_batch e (staged wb1))\<rparr>) \<and>
            WriteBatch_clear wb1 (db1\<lparr>db_ptr := Some (apply_batch e (staged wb1))\<rparr>) =
              Inr (wb1\<lparr>staged := []\<rparr>) \<and>
            WriteBatch_exit wb1 db1 (Some failure) =
              (Inr False, wb1\<lparr>staged := []\<rparr>,
               db1\<lparr>db_ptr := Some (apply_batch e (staged wb1))\<rparr>) \<and>
            with_WriteBatch wb db_obj body =
              (Some failure, wb1\<lparr>staged := []\<rparr>,
               db1\<lparr>db_ptr := Some (apply_batch e (staged wb1))\<rparr>)) \<and>
         (\<forall>e. db_ptr db_obj \<noteq> None \<and> db_ptr db1 = Some e \<and> engine_status e \<noteq> StatusOK \<longrightarrow>
            (\<exists>err. raise_for_status (engine_status e) = Some err \<and>
                   WriteBatch_write wb1 db1 = Inl err \<and>
                   WriteBatch_exit wb1 db1 (Some failure) = (Inl err, wb1, db1) \<and>
                   with_WriteBatch wb db_obj body = (Some err, wb1, db1)))"
proof (intro conjI impI allI)
  assume "db_ptr db_obj = None"
  then show "with_WriteBatch wb db_obj body = (Some RuntimeError, wb, db_obj)"
    by (rule with_WriteBatch_not_entered)
next
  assume a: "db_ptr db_obj \<noteq> None \<and> db_ptr db1 = None"
  then show x: "WriteBatch_exit wb1 db1 (Some failure) = (Inl RuntimeError, wb1, db1)"
    by (intro WriteBatch_exit_closed) simp
  show "with_WriteBatch wb db_obj body = (Some RuntimeError, wb1, db1)"
    using a assms(1) by (simp add: with_WriteBatch_entered x)
next
  fix e
  assume a: "db_ptr db_obj \<noteq> None \<and> db_ptr db1 = Some e \<and> engine_status e = StatusOK"
  show "WriteBatch_write wb1 db1 =
      Inr (db1\<lparr>db_ptr := Some (apply_batch e (staged wb1))\<rparr>)"
    using a by (intro WriteBatch_write_applies) simp_all
  show "WriteBatch_clear wb1 (db1\<lparr>db_ptr := Some (apply_batch e (staged wb1))\<rparr>) =
      Inr (wb1\<lparr>staged := []\<rparr>)"
    by (intro WriteBatch_clear_empties) simp
  show x: "WriteBatch_exit wb1 db1 (Some failure) =
      (Inr False, wb1\<lparr>staged := []\<rparr>,
       db1\<lparr>db_ptr := Some (apply_batch e (staged wb1))\<rparr>)"
    using a assms(2) by (intro WriteBatch_exit_commit) simp_all
  show "with_WriteBatch wb db_obj body =
      (Some failure, wb1\<lparr>staged := []\<rparr>,
       db1\<lparr>db_ptr := Some (apply_batch e (staged wb1))\<rparr>)"
    using a assms(1) by (simp add: with_WriteBatch_entered x)
next
  fix e
  assume a: "db_ptr db_obj \<noteq> None \<and> db_ptr db1 = Some e \<and> engine_status e \<noteq> StatusOK"
  then obtain err where err: "raise_for_status (engine_status e) = Some err"
    using raise_for_status_failure by blast
  have w: "WriteBatch_write wb1 db1 = Inl err"
    using a err by (intro WriteBatch_write_fails) simp_all
  have x: "WriteBatch_exit wb1 db1 (Some failure) = (Inl err, wb1, db1)"
    using a err assms(2) by (intro WriteBatch_exit_failed_write) simp_all
  have "with_WriteBatch wb db_obj body = (Some err, wb1, db1)"
    using a assms(1) by (simp add: with_WriteBatch_entered x)
  with err w x show "\<exists>err. raise_for_status (engine_status e) = Some err \<and>
      WriteBatch_write wb1 db1 = Inl err \<and>
      WriteBatch_exit wb1 db1 (Some failure) = (Inl err, wb1, db1) \<and>
      with_WriteBatch wb db_obj body = (Some err, wb1, db1)"
    by blast
qed

theorem WriteBatch_scope_exit_without_transaction_witness:
  "with_WriteBatch \<lparr>staged = [], batch_prefix = None, transaction = False\<rparr> abc_DB
       stage_d_then_fail =
     (Some (OtherException 7), \<lparr>staged = [], batch_prefix = None, transaction = False\<rparr>,
      abc_DB\<lparr>db_ptr := Some abcd_engine\<rparr>) \<and>
   with_WriteBatch \<lparr>staged = [], batch_prefix = None, transaction = False\<rparr> failing_DB
       stage_d_then_fail =
     (Some IOError, \<lparr>staged = [Put [0x64] [0x34]], batch_prefix = None, transaction = False\<rparr>,
      failing_DB) \<and>
   with_WriteBatch \<lparr>staged = [], batch_prefix = None, transaction = False\<rparr> abc_DB
       stage_d_close_then_fail =
     (Some RuntimeError, \<lparr>staged = [Put [0x64] [0x34]], batch_prefix = None, transaction = False\<rparr>,
      fst (DB_close abc_DB no_iterators))"
proof -
  let ?wb = "\<lparr>staged = [], batch_prefix = None, transaction = False\<rparr>"
  let ?wb1 = "\<lparr>staged = [Put [0x64] [0x34]], batch_prefix = None, transaction = False\<rparr>"
  let ?closed = "fst (DB_close abc_DB no_iterators)"
  have e: "db_ptr abc_DB = Some abc_engine" and f: "db_ptr failing_DB = Some failing_engine"
    by (simp_all add: abc_DB_def failing_DB_def)
  have closed: "db_ptr ?closed = None"
    by (simp add: DB_close_def close_registered_def close_engine_def release_block_cache_def
        release_filter_policy_def release_comparator_def abc_DB_def case_prod_beta Let_def)
  have nt: "\<not> transaction ?wb1" by simp
  have b2: "stage_d_then_fail ?wb abc_DB = (Some (OtherException 7), ?wb1, abc_DB)"
    by (simp add: stage_d_then_fail_def WriteBatch_put_def abc_DB_def)
  have b3: "stage_d_then_fail ?wb failing_DB = (Some (OtherException 7), ?wb1, failing_DB)"
    by (simp add: stage_d_then_fail_def WriteBatch_put_def failing_DB_def)
  have b4: "stage_d_close_then_fail ?wb abc_DB = (Some (OtherException 7), ?wb1, ?closed)"
    by (simp add: stage_d_close_then_fail_def WriteBatch_put_def abc_DB_def)
  have applied: "apply_batch abc_engine (staged ?wb1) = abcd_engine"
    by (simp add: apply_batch_def abc_engine_def abcd_engine_def)
  have ok: "engine_status abc_engine = StatusOK"
    and bad: "engine_status failing_engine \<noteq> StatusOK"
    and io: "raise_for_status (engine_status failing_engine) = Some IOError"
    by (simp_all add: abc_engine_def failing_engine_def raise_for_status_def)
  have "with_WriteBatch ?wb abc_DB stage_d_then_fail =
      (Some (OtherException 7), ?wb, abc_DB\<lparr>db_ptr := Some abcd_engine\<rparr>)"
    using WriteBatch_scope_exit_without_transaction [where body = stage_d_then_fail and wb = ?wb
        and db_obj = abc_DB, OF b2 nt, THEN conjunct2, THEN conjunct2, THEN conjunct1,
        rule_format, of abc_engine] e ok applied
    by simp
  moreover have "with_WriteBatch ?wb failing_DB stage_d_then_fail =
      (Some IOError, ?wb1, failing_DB)"
    using WriteBatch_scope_exit_without_transaction [where body = stage_d_then_fail and wb = ?wb
        and db_obj = failing_DB, OF b3 nt, THEN conjunct2, THEN conjunct2, THEN conjunct2,
        rule_format, of failing_engine] f bad io
    by auto
  moreover have "with_WriteBatch ?wb abc_DB stage_d_close_then_fail =
      (Some RuntimeError, ?wb1, ?closed)"
    using WriteBatch_scope_exit_without_transaction [where body = stage_d_close_then_fail and
        wb = ?wb and db_obj = abc_DB, OF b4 nt, THEN conjunct2, THEN conjunct1] e closed
    by simp
  ultimately show ?thesis by simp
qed

text \<open>
  Claim C10 as stated fails when the engine rejects the write, and when the store
  handle is closed inside the scope.  A batch without transaction mode on a store whose
  engine reports an I/O error, with a scope body that stages a put and then fails: the
  engine's error reaches the caller in place of the failure that left the scope, the
  store is as it was, and the batch still holds the staged put.  The same batch on the
  store of \<open>a\<close>, \<open>b\<close>, \<open>c\<close>, with a scope body that stages a put, closes the store handle
  and then fails: \<open>RuntimeError\<close> reaches the caller in place of the failure, and the
  batch still holds the staged put.
\<close>

theorem WriteBatch_exit_failed_write_counterexample:
  "fst (stage_d_then_fail \<lparr>staged = [], batch_prefix = None, transaction = False\<rparr> failing_DB) =
     Some (OtherException 7) \<and>
   with_WriteBatch \<lparr>staged = [], batch_prefix = None, transaction = False\<rparr> failing_DB
       stage_d_then_fail =
     (Some IOError, \<lparr>staged = [Put [0x64] [0x34]], batch_prefix = None, transaction = False\<rparr>,
      failing_DB) \<and>
   fst (stage_d_close_then_fail \<lparr>staged = [], batch_prefix = None, transaction = False\<rparr>
          abc_DB) = Some (OtherException 7) \<and>
   with_WriteBatch \<lparr>staged = [], batch_prefix = None, transaction = False\<rparr> abc_DB
       stage_d_close_then_fail =
     (Some RuntimeError, \<lparr>staged = [Put [0x64] [0x34]], batch_prefix = None, transaction = False\<rparr>,
      fst (DB_close abc_DB no_iterators))"
  by (simp add: with_WriteBatch_def WriteBatch_enter_def WriteBatch_exit_def
      WriteBatch_write_def leveldb_Write_def raise_for_status_def
      stage_d_then_fail_def stage_d_close_then_fail_def WriteBatch_put_def DB_close_def
      close_registered_def close_engine_def release_block_cache_def release_filter_policy_def
      release_comparator_def failing_DB_def failing_engine_def abc_DB_def abc_engine_def
      case_prod_beta Let_def)

end
